theory Spec2Isabelle
  imports Complex_Main "HOL-Library.AList"
begin

section \<open>Log levels (level.py)\<close>

text \<open>
  \<^verbatim>\<open>class LogLevel(IntEnum)\<close>: five members; \<open>level_value\<close> is the member's integer
  value and \<open>level_name\<close> its \<^verbatim>\<open>.name\<close>.
\<close>

datatype LogLevel = DEBUG | INFO | WARNING | ERROR | CRITICAL

fun level_value :: "LogLevel \<Rightarrow> int" where
  "level_value DEBUG = 10"
| "level_value INFO = 20"
| "level_value WARNING = 30"
| "level_value ERROR = 40"
| "level_value CRITICAL = 50"

fun level_name :: "LogLevel \<Rightarrow> string" where
  "level_name DEBUG = ''DEBUG''"
| "level_name INFO = ''INFO''"
| "level_name WARNING = ''WARNING''"
| "level_name ERROR = ''ERROR''"
| "level_name CRITICAL = ''CRITICAL''"

section \<open>Outcomes of a call\<close>

text \<open>
  A Python call either returns, raises, or (a blocking \<^verbatim>\<open>queue.put\<close> on a full queue)
  does not return in the current state. Every outcome carries the state reached, because
  mutations made before a raise stay visible to the \<^verbatim>\<open>except\<close> clause that catches it.
\<close>

datatype py_error = TypeError | OSError | ValueError | HandlerError

datatype 's res = Ok 's | Raise py_error 's | Blocked 's

fun state_of :: "'s res \<Rightarrow> 's" where
  "state_of (Ok s) = s"
| "state_of (Raise e s) = s"
| "state_of (Blocked s) = s"

fun is_ok :: "'s res \<Rightarrow> bool" where
  "is_ok (Ok s) = True"
| "is_ok (Raise e s) = False"
| "is_ok (Blocked s) = False"

fun raises :: "'s res \<Rightarrow> bool" where
  "raises (Ok s) = False"
| "raises (Raise e s) = True"
| "raises (Blocked s) = False"

fun blocks :: "'s res \<Rightarrow> bool" where
  "blocks (Ok s) = False"
| "blocks (Raise e s) = False"
| "blocks (Blocked s) = True"

text \<open>Sequencing: the second statement runs only when the first one returned.\<close>

fun and_then :: "'s res \<Rightarrow> ('s \<Rightarrow> 's res) \<Rightarrow> 's res" where
  "and_then (Ok s) f = f s"
| "and_then (Raise e s) f = Raise e s"
| "and_then (Blocked s) f = Blocked s"

text \<open>\<^verbatim>\<open>try: ... except Exception: pass\<close>: a raise becomes a normal return in the state
  reached; a call that blocks still blocks.\<close>

fun suppress :: "'s res \<Rightarrow> 's res" where
  "suppress (Ok s) = Ok s"
| "suppress (Raise e s) = Ok s"
| "suppress (Blocked s) = Blocked s"

text \<open>An operation on one component of a pair of states.\<close>

fun with_fst :: "'b \<Rightarrow> 'a res \<Rightarrow> ('a \<times> 'b) res" where
  "with_fst b (Ok a) = Ok (a, b)"
| "with_fst b (Raise e a) = Raise e (a, b)"
| "with_fst b (Blocked a) = Blocked (a, b)"

fun with_snd :: "'a \<Rightarrow> 'b res \<Rightarrow> ('a \<times> 'b) res" where
  "with_snd a (Ok b) = Ok (a, b)"
| "with_snd a (Raise e b) = Raise e (a, b)"
| "with_snd a (Blocked b) = Blocked (a, b)"

section \<open>Dictionaries\<close>

text \<open>
  A Python \<^verbatim>\<open>dict\<close> with string keys is an association list in insertion order.
  \<^verbatim>\<open>d[k] = v\<close> is \<^const>\<open>AList.update\<close> (overwrite in place, or append a new key),
  \<^verbatim>\<open>del d[k]\<close> is \<^const>\<open>AList.delete\<close>, and \<^verbatim>\<open>{**a, **b}\<close> stores the pairs of \<open>b\<close> into a
  copy of \<open>a\<close> from left to right.
\<close>

type_synonym 'v dict = "(string \<times> 'v) list"

definition dict_get :: "'v dict \<Rightarrow> string \<Rightarrow> 'v option" where
  "dict_get d k = map_of d k"

definition has_key :: "'v dict \<Rightarrow> string \<Rightarrow> bool" where
  "has_key d k = (k \<in> set (map fst d))"

definition dict_merge :: "'v dict \<Rightarrow> 'v dict \<Rightarrow> 'v dict" where
  "dict_merge a b = foldl (\<lambda>d kv. AList.update (fst kv) (snd kv) d) a b"

section \<open>Source location (logger.py)\<close>

text \<open>
  A frame of the interpreter's call stack, reduced to what the logger reads:
  \<^verbatim>\<open>f_code.co_filename\<close>, \<^verbatim>\<open>f_lineno\<close> and \<^verbatim>\<open>f_code.co_name\<close>. A stack is the list of
  frames from the running one outwards; \<^verbatim>\<open>f_back\<close> is the tail, and the empty list is
  \<^verbatim>\<open>None\<close>.
\<close>

record frame =
  co_filename :: string
  f_lineno :: int
  co_name :: string

record SourceLocation =
  sl_file :: string
  sl_line :: int
  sl_function :: string

text \<open>\<^verbatim>\<open>os.path.basename\<close> (POSIX): everything after the last slash.\<close>

definition basename :: "string \<Rightarrow> string" where
  "basename p = rev (takeWhile (\<lambda>c. c \<noteq> CHR ''/'') (rev p))"

text \<open>\<^verbatim>\<open>for _ in range(stack_depth): if frame is None: break; frame = frame.f_back\<close>\<close>

fun walk_back :: "nat \<Rightarrow> frame list \<Rightarrow> frame list" where
  "walk_back 0 fs = fs"
| "walk_back (Suc n) [] = []"
| "walk_back (Suc n) (f # fs) = walk_back n fs"

definition capture_source_location :: "nat \<Rightarrow> frame list \<Rightarrow> SourceLocation" where
  "capture_source_location stack_depth stack =
     (case walk_back stack_depth stack of
        [] \<Rightarrow> \<lparr>sl_file = ''<unknown>'', sl_line = 0, sl_function = ''<unknown>''\<rparr>
      | f # _ \<Rightarrow> \<lparr>sl_file = basename (co_filename f), sl_line = f_lineno f,
                  sl_function = co_name f\<rparr>)"

text \<open>The frames of \<^verbatim>\<open>_capture_source_location\<close> and \<^verbatim>\<open>Logger._log\<close> themselves, and of the
  public methods that call \<^verbatim>\<open>_log\<close>.\<close>

definition logger_py :: string where
  "logger_py = ''agora_log/logger.py''"

definition capture_frame :: frame where
  "capture_frame = \<lparr>co_filename = logger_py, f_lineno = 46, co_name = ''_capture_source_location''\<rparr>"

definition log_frame :: frame where
  "log_frame = \<lparr>co_filename = logger_py, f_lineno = 122, co_name = ''_log''\<rparr>"

definition method_frame :: "string \<Rightarrow> int \<Rightarrow> frame" where
  "method_frame nm lineno = \<lparr>co_filename = logger_py, f_lineno = lineno, co_name = nm\<rparr>"

section \<open>Records, configuration, exceptions\<close>

text \<open>An exception object as \<^verbatim>\<open>_log\<close> reads it: \<^verbatim>\<open>type(e).__name__\<close>, \<^verbatim>\<open>str(e)\<close>, and
  the formatted traceback when \<^verbatim>\<open>e.__traceback__\<close> is set.\<close>

record pyexc =
  exc_type :: string
  exc_message :: string
  exc_traceback :: "string option"

record exc_desc =
  x_type :: string
  x_message :: string
  x_stacktrace :: string

text \<open>
  The entry dictionary built by \<^verbatim>\<open>_log\<close>. Its fixed keys are fields; \<open>e_promoted\<close> holds
  the keys added at the top level by the promotion loop, \<open>e_context\<close> is
  \<^verbatim>\<open>entry["context"]\<close>, and \<open>e_exception\<close> is \<^verbatim>\<open>entry["exception"]\<close> when present.
\<close>

record 'v entry =
  e_timestamp :: string
  e_level :: string
  e_message :: string
  e_service :: string
  e_environment :: string
  e_version :: string
  e_host :: string
  e_logger_name :: string
  e_file :: string
  e_line :: int
  e_function :: string
  e_context :: "'v dict"
  e_promoted :: "'v dict"
  e_exception :: "exc_desc option"

record 'v LogConfig =
  cfg_service_name :: string
  cfg_environment :: string
  cfg_version :: string
  cfg_level :: LogLevel
  cfg_console_enabled :: bool
  cfg_console_format :: string
  cfg_console_colors :: bool
  cfg_file_enabled :: bool
  cfg_file_path :: string
  cfg_max_file_size_mb :: int
  cfg_max_backup_count :: int
  cfg_async_enabled :: bool
  cfg_queue_size :: int
  cfg_default_context :: "'v dict"

section \<open>The world outside the process\<close>

text \<open>
  Files are byte strings by path; the standard streams are the lists of strings written to
  them. \<open>w_faults\<close> is the schedule of I/O failures: every system call below takes the first
  flag and raises \<^verbatim>\<open>OSError\<close> when it is set, so that a property stated for every world holds
  whatever fails. \<open>w_hostname\<close> is the module's \<^verbatim>\<open>_hostname\<close> cache. \<open>w_emitted\<close> is
  instrumentation, not program state: it lists, in order, every \<^verbatim>\<open>handler.emit(entry)\<close> call
  made by \<^verbatim>\<open>Logger._log\<close>, as the handler's position in the chain and the entry passed.
\<close>

record 'v world =
  w_files :: "string \<rightharpoonup> string"
  w_stdout :: "string list"
  w_stderr :: "string list"
  w_faults :: "bool list"
  w_hostname :: "string option"
  w_emitted :: "(nat \<times> 'v entry) list"

definition sys_call :: "('v world \<Rightarrow> 'v world) \<Rightarrow> 'v world \<Rightarrow> 'v world res" where
  "sys_call effect w =
     (case w_faults w of
        [] \<Rightarrow> Ok (effect w)
      | b # bs \<Rightarrow> (if b then Raise OSError (w\<lparr>w_faults := bs\<rparr>)
                  else Ok (effect (w\<lparr>w_faults := bs\<rparr>))))"

definition stream_write :: "string \<Rightarrow> 'v world \<Rightarrow> 'v world res" where
  "stream_write s = sys_call (\<lambda>w. w\<lparr>w_stdout := w_stdout w @ [s]\<rparr>)"

definition stream_flush :: "'v world \<Rightarrow> 'v world res" where
  "stream_flush = sys_call (\<lambda>w. w)"

text \<open>\<^verbatim>\<open>print(..., file=sys.stderr)\<close>, taken not to fail.\<close>

definition print_stderr :: "string \<Rightarrow> 'v world \<Rightarrow> 'v world" where
  "print_stderr s w = w\<lparr>w_stderr := w_stderr w @ [s]\<rparr>"

definition fs_exists :: "'v world \<Rightarrow> string \<Rightarrow> bool" where
  "fs_exists w p = (w_files w p \<noteq> None)"

definition fs_size :: "'v world \<Rightarrow> string \<Rightarrow> int" where
  "fs_size w p = (case w_files w p of None \<Rightarrow> 0 | Some c \<Rightarrow> int (length c))"

definition fs_mkdir_parents :: "string \<Rightarrow> 'v world \<Rightarrow> 'v world res" where
  "fs_mkdir_parents p = sys_call (\<lambda>w. w)"

text \<open>\<^verbatim>\<open>open(path, "a")\<close> creates the file when it is missing.\<close>

definition fs_open_append :: "string \<Rightarrow> 'v world \<Rightarrow> 'v world res" where
  "fs_open_append p =
     sys_call (\<lambda>w. case w_files w p of None \<Rightarrow> w\<lparr>w_files := (w_files w)(p \<mapsto> [])\<rparr> | Some c \<Rightarrow> w)"

definition fs_unlink :: "string \<Rightarrow> 'v world \<Rightarrow> 'v world res" where
  "fs_unlink p = sys_call (\<lambda>w. w\<lparr>w_files := (w_files w)(p := None)\<rparr>)"

definition fs_rename :: "string \<Rightarrow> string \<Rightarrow> 'v world \<Rightarrow> 'v world res" where
  "fs_rename src dst =
     sys_call (\<lambda>w. w\<lparr>w_files := ((w_files w)(src := None))(dst := w_files w src)\<rparr>)"

text \<open>An open file object: the path it was opened on and its \<^verbatim>\<open>closed\<close> flag. A handler
  renames its file only after closing it, so a write through an open object lands at the
  object's path.\<close>

record pyfile =
  f_path :: string
  f_closed :: bool

definition file_write :: "string \<Rightarrow> string \<Rightarrow> 'v world \<Rightarrow> 'v world res" where
  "file_write p s =
     sys_call (\<lambda>w. w\<lparr>w_files := (w_files w)(p \<mapsto> (case w_files w p of None \<Rightarrow> s | Some c \<Rightarrow> c @ s))\<rparr>)"

definition file_flush :: "'v world \<Rightarrow> 'v world res" where
  "file_flush = sys_call (\<lambda>w. w)"

definition file_close :: "'v world \<Rightarrow> 'v world res" where
  "file_close = sys_call (\<lambda>w. w)"

text \<open>\<^verbatim>\<open>self._file and not self._file.closed\<close>\<close>

definition is_open :: "pyfile option \<Rightarrow> bool" where
  "is_open f = (case f of None \<Rightarrow> False | Some x \<Rightarrow> \<not> f_closed x)"

definition mark_closed :: "pyfile option \<Rightarrow> pyfile option" where
  "mark_closed f = map_option (\<lambda>x. x\<lparr>f_closed := True\<rparr>) f"

text \<open>
  The library functions the handlers call and the core does not define: the two
  serialisers (\<open>None\<close> when serialising raises), and how a keyword value bound to
  \<^verbatim>\<open>_log\<close>'s \<^verbatim>\<open>exception\<close> parameter reads as \<^verbatim>\<open>BaseException | None\<close>, and the
  Python value of a number of milliseconds. Serialised text is taken as UTF-8 bytes, so its
  length is \<^verbatim>\<open>len(output.encode("utf-8"))\<close>.
\<close>

record 'v pyenv =
  format_json :: "'v entry \<Rightarrow> string option"
  format_text :: "'v entry \<Rightarrow> string option"
  exception_of :: "'v \<Rightarrow> pyexc option"
  float_value :: "real \<Rightarrow> 'v"

section \<open>Console handler (handlers/console.py)\<close>

record ConsoleHandler =
  ch_format :: string
  ch_colors :: bool

definition esc :: string where
  "esc = [CHR 0x1B]"

definition color_codes :: "string dict" where
  "color_codes =
     [(''DEBUG'', esc @ ''[36m''), (''INFO'', esc @ ''[32m''), (''WARNING'', esc @ ''[33m''),
      (''ERROR'', esc @ ''[31m''), (''CRITICAL'', esc @ ''[35m''), (''RESET'', esc @ ''[0m'')]"

definition console_output :: "'v pyenv \<Rightarrow> ConsoleHandler \<Rightarrow> 'v entry \<Rightarrow> string option" where
  "console_output env h e =
     (if ch_format h = ''json'' then format_json env e
      else map_option
             (\<lambda>out. if ch_colors h
                     then (case dict_get color_codes (e_level e) of None \<Rightarrow> [] | Some c \<Rightarrow> c)
                          @ out @ the (dict_get color_codes ''RESET'')
                     else out)
             (format_text env e))"

definition ConsoleHandler_emit ::
  "'v pyenv \<Rightarrow> 'v entry \<Rightarrow> ConsoleHandler \<times> 'v world \<Rightarrow> (ConsoleHandler \<times> 'v world) res" where
  "ConsoleHandler_emit env e s =
     suppress
       (case console_output env (fst s) e of
          None \<Rightarrow> Raise ValueError s
        | Some out \<Rightarrow>
            with_snd (fst s) (and_then (stream_write (out @ [CHR 0x0A]) (snd s)) stream_flush))"

definition ConsoleHandler_flush ::
  "ConsoleHandler \<times> 'v world \<Rightarrow> (ConsoleHandler \<times> 'v world) res" where
  "ConsoleHandler_flush s = suppress (with_snd (fst s) (stream_flush (snd s)))"

definition ConsoleHandler_close ::
  "ConsoleHandler \<times> 'v world \<Rightarrow> (ConsoleHandler \<times> 'v world) res" where
  "ConsoleHandler_close s = ConsoleHandler_flush s"

section \<open>File handler (handlers/file.py)\<close>

record FileHandler =
  fh_file_path :: string
  fh_file :: "pyfile option"

definition FileHandler_init :: "string \<Rightarrow> 'v world \<Rightarrow> (FileHandler \<times> 'v world) res" where
  "FileHandler_init p w =
     (case and_then (fs_mkdir_parents p w) (fs_open_append p) of
        Ok w' \<Rightarrow> Ok (\<lparr>fh_file_path = p, fh_file = Some \<lparr>f_path = p, f_closed = False\<rparr>\<rparr>, w')
      | Raise x w' \<Rightarrow> Raise x (\<lparr>fh_file_path = p, fh_file = None\<rparr>, w')
      | Blocked w' \<Rightarrow> Blocked (\<lparr>fh_file_path = p, fh_file = None\<rparr>, w'))"

definition FileHandler_emit ::
  "'v pyenv \<Rightarrow> 'v entry \<Rightarrow> FileHandler \<times> 'v world \<Rightarrow> (FileHandler \<times> 'v world) res" where
  "FileHandler_emit env e s =
     suppress
       (case format_json env e of
          None \<Rightarrow> Raise ValueError s
        | Some output \<Rightarrow>
            (if is_open (fh_file (fst s))
             then with_snd (fst s)
                    (and_then (file_write (f_path (the (fh_file (fst s)))) (output @ [CHR 0x0A]) (snd s))
                       file_flush)
             else Ok s))"

definition FileHandler_flush :: "FileHandler \<times> 'v world \<Rightarrow> (FileHandler \<times> 'v world) res" where
  "FileHandler_flush s =
     suppress (if is_open (fh_file (fst s)) then with_snd (fst s) (file_flush (snd s)) else Ok s)"

definition FileHandler_close :: "FileHandler \<times> 'v world \<Rightarrow> (FileHandler \<times> 'v world) res" where
  "FileHandler_close s =
     suppress
       (if is_open (fh_file (fst s))
        then and_then (with_snd (fst s) (file_flush (snd s)))
               (\<lambda>s1. with_snd ((fst s1)\<lparr>fh_file := mark_closed (fh_file (fst s1))\<rparr>)
                        (file_close (snd s1)))
        else Ok s)"

section \<open>Rotating file handler (handlers/rotating.py)\<close>

record RotatingFileHandler =
  rh_file_path :: string
  rh_max_bytes :: int
  rh_backup_count :: int
  rh_file :: "pyfile option"
  rh_current_size :: int

text \<open>A \<^verbatim>\<open>for\<close> loop whose body may raise: the first raise ends the loop.\<close>

fun for_each :: "('a \<Rightarrow> 's \<Rightarrow> 's res) \<Rightarrow> 'a list \<Rightarrow> 's \<Rightarrow> 's res" where
  "for_each body [] s = Ok s"
| "for_each body (x # xs) s = and_then (body x s) (for_each body xs)"

text \<open>Decimal digits of a natural number, for \<^verbatim>\<open>f"{self.file_path}.{i}"\<close>.\<close>

fun str_nat :: "nat \<Rightarrow> string" where
  "str_nat n = (if n < 10 then [''0123456789'' ! n]
                else str_nat (n div 10) @ [''0123456789'' ! (n mod 10)])"

declare str_nat.simps [simp del]

definition backup_path :: "string \<Rightarrow> nat \<Rightarrow> string" where
  "backup_path p i = p @ ''.'' @ str_nat i"

text \<open>\<^verbatim>\<open>if src.exists(): (if dst.exists(): dst.unlink()); src.rename(dst)\<close>, the shape of
  both the loop body and the step that retires the primary file.\<close>

definition retire :: "string \<Rightarrow> string \<Rightarrow> 'v world \<Rightarrow> 'v world res" where
  "retire src dst w =
     (if fs_exists w src
      then and_then (if fs_exists w dst then fs_unlink dst w else Ok w) (fs_rename src dst)
      else Ok w)"

text \<open>\<^verbatim>\<open>range(self.backup_count - 1, 0, -1)\<close>\<close>

definition backup_range :: "int \<Rightarrow> nat list" where
  "backup_range backup_count = rev [1 ..< nat backup_count]"

definition RotatingFileHandler_open ::
  "RotatingFileHandler \<times> 'v world \<Rightarrow> (RotatingFileHandler \<times> 'v world) res" where
  "RotatingFileHandler_open s =
     (let p = rh_file_path (fst s);
          h = (fst s)\<lparr>rh_current_size := (if fs_exists (snd s) p then fs_size (snd s) p else 0)\<rparr>
      in and_then (with_snd h (fs_open_append p (snd s)))
           (\<lambda>s1. Ok ((fst s1)\<lparr>rh_file := Some \<lparr>f_path = p, f_closed = False\<rparr>\<rparr>, snd s1)))"

definition RotatingFileHandler_init ::
  "string \<Rightarrow> int \<Rightarrow> int \<Rightarrow> 'v world \<Rightarrow> (RotatingFileHandler \<times> 'v world) res" where
  "RotatingFileHandler_init p max_bytes backup_count w =
     (let h = \<lparr>rh_file_path = p, rh_max_bytes = max_bytes, rh_backup_count = backup_count,
               rh_file = None, rh_current_size = 0\<rparr>
      in and_then (with_snd h (fs_mkdir_parents p w)) RotatingFileHandler_open)"

definition RotatingFileHandler_should_rotate :: "RotatingFileHandler \<Rightarrow> int \<Rightarrow> bool" where
  "RotatingFileHandler_should_rotate h message_size =
     (rh_max_bytes h > 0 \<and> rh_current_size h + message_size > rh_max_bytes h)"

definition RotatingFileHandler_do_rotate ::
  "RotatingFileHandler \<times> 'v world \<Rightarrow> (RotatingFileHandler \<times> 'v world) res" where
  "RotatingFileHandler_do_rotate s =
     (let p = rh_file_path (fst s) in
      and_then
        (if is_open (rh_file (fst s))
         then with_snd ((fst s)\<lparr>rh_file := mark_closed (rh_file (fst s))\<rparr>) (file_close (snd s))
         else Ok s)
        (\<lambda>s1. and_then
           (with_snd (fst s1)
              (for_each (\<lambda>i. retire (backup_path p i) (backup_path p (i + 1)))
                 (backup_range (rh_backup_count (fst s1))) (snd s1)))
           (\<lambda>s2. and_then (with_snd (fst s2) (retire p (backup_path p 1) (snd s2)))
              (\<lambda>s3. and_then
                 (with_snd ((fst s3)\<lparr>rh_current_size := 0\<rparr>) (fs_open_append p (snd s3)))
                 (\<lambda>s4. Ok ((fst s4)\<lparr>rh_file := Some \<lparr>f_path = p, f_closed = False\<rparr>\<rparr>,
                            snd s4))))))"

definition RotatingFileHandler_emit ::
  "'v pyenv \<Rightarrow> 'v entry \<Rightarrow> RotatingFileHandler \<times> 'v world
     \<Rightarrow> (RotatingFileHandler \<times> 'v world) res" where
  "RotatingFileHandler_emit env e s =
     suppress
       (case format_json env e of
          None \<Rightarrow> Raise ValueError s
        | Some out \<Rightarrow>
            (let output = out @ [CHR 0x0A];
                 message_size = int (length output)
             in and_then
                  (if RotatingFileHandler_should_rotate (fst s) message_size
                   then RotatingFileHandler_do_rotate s else Ok s)
                  (\<lambda>s1. if is_open (rh_file (fst s1))
                         then and_then
                                (with_snd (fst s1)
                                   (and_then (file_write (f_path (the (rh_file (fst s1)))) output
                                                (snd s1))
                                      file_flush))
                                (\<lambda>s2. Ok ((fst s2)\<lparr>rh_current_size :=
                                                      rh_current_size (fst s2) + message_size\<rparr>,
                                           snd s2))
                         else Ok s1)))"

definition RotatingFileHandler_flush ::
  "RotatingFileHandler \<times> 'v world \<Rightarrow> (RotatingFileHandler \<times> 'v world) res" where
  "RotatingFileHandler_flush s =
     suppress (if is_open (rh_file (fst s)) then with_snd (fst s) (file_flush (snd s)) else Ok s)"

definition RotatingFileHandler_close ::
  "RotatingFileHandler \<times> 'v world \<Rightarrow> (RotatingFileHandler \<times> 'v world) res" where
  "RotatingFileHandler_close s =
     suppress
       (if is_open (rh_file (fst s))
        then and_then (with_snd (fst s) (file_flush (snd s)))
               (\<lambda>s1. with_snd ((fst s1)\<lparr>rh_file := mark_closed (rh_file (fst s1))\<rparr>)
                        (file_close (snd s1)))
        else Ok s)"

section \<open>User-defined handlers (handlers/base.py)\<close>

text \<open>
  \<^verbatim>\<open>Handler\<close> is an abstract base class, so a chain may hold handlers the library does not
  define. The model has the collecting handler of the test-suite (\<^verbatim>\<open>emit\<close> appends to
  \<^verbatim>\<open>self.entries\<close>, \<^verbatim>\<open>close\<close> clears it) and, with \<open>cu_raises\<close> set, a handler whose
  \<^verbatim>\<open>emit\<close> raises.
\<close>

record 'v CustomHandler =
  cu_entries :: "'v entry list"
  cu_raises :: bool

definition CustomHandler_emit ::
  "'v entry \<Rightarrow> 'v CustomHandler \<times> 'v world \<Rightarrow> ('v CustomHandler \<times> 'v world) res" where
  "CustomHandler_emit e s =
     (if cu_raises (fst s) then Raise HandlerError s
      else Ok ((fst s)\<lparr>cu_entries := cu_entries (fst s) @ [e]\<rparr>, snd s))"

definition CustomHandler_close ::
  "'v CustomHandler \<times> 'v world \<Rightarrow> ('v CustomHandler \<times> 'v world) res" where
  "CustomHandler_close s = Ok ((fst s)\<lparr>cu_entries := []\<rparr>, snd s)"

section \<open>Synchronous handlers, dispatched\<close>

datatype 'v sink =
    Console ConsoleHandler
  | File FileHandler
  | Rotating RotatingFileHandler
  | Custom "'v CustomHandler"

fun Sink_emit :: "'v pyenv \<Rightarrow> 'v entry \<Rightarrow> 'v sink \<times> 'v world \<Rightarrow> ('v sink \<times> 'v world) res" where
  "Sink_emit env e (Console h, w) = map_res (apfst Console) (ConsoleHandler_emit env e (h, w))"
| "Sink_emit env e (File h, w) = map_res (apfst File) (FileHandler_emit env e (h, w))"
| "Sink_emit env e (Rotating h, w) = map_res (apfst Rotating) (RotatingFileHandler_emit env e (h, w))"
| "Sink_emit env e (Custom h, w) = map_res (apfst Custom) (CustomHandler_emit e (h, w))"

fun Sink_flush :: "'v sink \<times> 'v world \<Rightarrow> ('v sink \<times> 'v world) res" where
  "Sink_flush (Console h, w) = map_res (apfst Console) (ConsoleHandler_flush (h, w))"
| "Sink_flush (File h, w) = map_res (apfst File) (FileHandler_flush (h, w))"
| "Sink_flush (Rotating h, w) = map_res (apfst Rotating) (RotatingFileHandler_flush (h, w))"
| "Sink_flush (Custom h, w) = Ok (Custom h, w)"

fun Sink_close :: "'v sink \<times> 'v world \<Rightarrow> ('v sink \<times> 'v world) res" where
  "Sink_close (Console h, w) = map_res (apfst Console) (ConsoleHandler_close (h, w))"
| "Sink_close (File h, w) = map_res (apfst File) (FileHandler_close (h, w))"
| "Sink_close (Rotating h, w) = map_res (apfst Rotating) (RotatingFileHandler_close (h, w))"
| "Sink_close (Custom h, w) = map_res (apfst Custom) (CustomHandler_close (h, w))"

section \<open>Async handler (handlers/async_handler.py)\<close>

datatype QueueFullBehavior = DROP | BLOCK | FALLBACK

text \<open>
  Where the background thread running \<^verbatim>\<open>_process_queue\<close> stands: about to test
  \<^verbatim>\<open>while not self._stop\<close>, inside \<^verbatim>\<open>self._queue.get(timeout=...)\<close>, or returned.
\<close>

datatype thread_pc = AtLoopTest | InGet | Exited

text \<open>
  The handler's attributes, and the thread's local \<^verbatim>\<open>batch\<close>. The queue holds entries and
  the sentinel \<^verbatim>\<open>None\<close>; as in \<^verbatim>\<open>queue.Queue\<close>, \<open>ah_maxsize \<le> 0\<close> means unbounded.
\<close>

record 'v AsyncHandler =
  ah_underlying :: "'v sink"
  ah_queue :: "'v entry option list"
  ah_maxsize :: int
  ah_on_full :: QueueFullBehavior
  ah_batch_size :: int
  ah_stop :: bool
  ah_dropped_count :: int
  ah_batch :: "'v entry list"
  ah_thread :: thread_pc

definition AsyncHandler_init ::
  "'v sink \<Rightarrow> int \<Rightarrow> QueueFullBehavior \<Rightarrow> int \<Rightarrow> 'v AsyncHandler" where
  "AsyncHandler_init underlying_handler queue_size on_full batch_size =
     \<lparr>ah_underlying = underlying_handler, ah_queue = [], ah_maxsize = queue_size,
      ah_on_full = on_full, ah_batch_size = batch_size, ah_stop = False,
      ah_dropped_count = 0, ah_batch = [], ah_thread = AtLoopTest\<rparr>"

definition queue_full :: "'v AsyncHandler \<Rightarrow> bool" where
  "queue_full a = (ah_maxsize a > 0 \<and> int (length (ah_queue a)) \<ge> ah_maxsize a)"

definition enqueue :: "'v entry option \<Rightarrow> 'v AsyncHandler \<Rightarrow> 'v AsyncHandler" where
  "enqueue x a = a\<lparr>ah_queue := ah_queue a @ [x]\<rparr>"

definition count_dropped :: "'v AsyncHandler \<Rightarrow> 'v AsyncHandler" where
  "count_dropped a = a\<lparr>ah_dropped_count := ah_dropped_count a + 1\<rparr>"

text \<open>A call of a method of \<^verbatim>\<open>self._underlying_handler\<close>.\<close>

definition on_underlying ::
  "('v sink \<times> 'v world \<Rightarrow> ('v sink \<times> 'v world) res)
     \<Rightarrow> 'v AsyncHandler \<times> 'v world \<Rightarrow> ('v AsyncHandler \<times> 'v world) res" where
  "on_underlying method s =
     map_res (apfst (\<lambda>u. (fst s)\<lparr>ah_underlying := u\<rparr>)) (method (ah_underlying (fst s), snd s))"

definition AsyncHandler_emit ::
  "'v pyenv \<Rightarrow> 'v entry \<Rightarrow> 'v AsyncHandler \<times> 'v world \<Rightarrow> ('v AsyncHandler \<times> 'v world) res" where
  "AsyncHandler_emit env e s =
     (if ah_stop (fst s) then Ok s
      else suppress
        (case ah_on_full (fst s) of
           BLOCK \<Rightarrow>
             (if queue_full (fst s) then Blocked s else Ok (enqueue (Some e) (fst s), snd s))
         | FALLBACK \<Rightarrow>
             (if queue_full (fst s)
              then suppress (on_underlying (Sink_emit env e) (count_dropped (fst s), snd s))
              else Ok (enqueue (Some e) (fst s), snd s))
         | DROP \<Rightarrow>
             (if queue_full (fst s) then Ok (count_dropped (fst s), snd s)
              else Ok (enqueue (Some e) (fst s), snd s))))"

text \<open>\<^verbatim>\<open>_flush_batch\<close>: one \<^verbatim>\<open>emit\<close> of the underlying handler per entry, a raise reported on
  standard error and the loop continued.\<close>

definition flush_one ::
  "'v pyenv \<Rightarrow> 'v entry \<Rightarrow> 'v AsyncHandler \<times> 'v world \<Rightarrow> ('v AsyncHandler \<times> 'v world) res" where
  "flush_one env e s =
     (case on_underlying (Sink_emit env e) s of
        Ok s1 \<Rightarrow> Ok s1
      | Raise x s1 \<Rightarrow> Ok (fst s1, print_stderr ''AsyncHandler emit error'' (snd s1))
      | Blocked s1 \<Rightarrow> Blocked s1)"

definition AsyncHandler_flush_batch ::
  "'v pyenv \<Rightarrow> 'v entry list \<Rightarrow> 'v AsyncHandler \<times> 'v world
     \<Rightarrow> ('v AsyncHandler \<times> 'v world) res" where
  "AsyncHandler_flush_batch env batch s = for_each (flush_one env) batch s"

text \<open>
  The part of one loop iteration after \<^verbatim>\<open>get\<close> returned an entry or timed out.
  \<open>elapsed\<close> is the clock's answer to
  \<^verbatim>\<open>time.monotonic() - last_flush_time >= self._batch_timeout\<close>.
\<close>

definition after_get ::
  "'v pyenv \<Rightarrow> bool \<Rightarrow> 'v AsyncHandler \<times> 'v world \<Rightarrow> ('v AsyncHandler \<times> 'v world) res" where
  "after_get env elapsed s =
     (let batch = ah_batch (fst s);
          should_flush = (int (length batch) \<ge> ah_batch_size (fst s) \<or> (batch \<noteq> [] \<and> elapsed))
      in if should_flush \<and> batch \<noteq> []
         then and_then (AsyncHandler_flush_batch env batch s)
                (\<lambda>s1. Ok ((fst s1)\<lparr>ah_batch := [], ah_thread := AtLoopTest\<rparr>, snd s1))
         else Ok ((fst s)\<lparr>ah_thread := AtLoopTest\<rparr>, snd s))"

text \<open>
  One step of the background thread. At the loop test it leaves the loop when
  \<^verbatim>\<open>self._stop\<close> is set. In \<^verbatim>\<open>get\<close> it takes the head of the queue: the sentinel flushes
  the batch and leaves the loop, an entry joins the batch; on an empty queue the step is the
  expiry of the timeout (\<^verbatim>\<open>queue.Empty\<close>).
\<close>

definition consumer_step ::
  "'v pyenv \<Rightarrow> bool \<Rightarrow> 'v AsyncHandler \<times> 'v world \<Rightarrow> ('v AsyncHandler \<times> 'v world) res" where
  "consumer_step env elapsed s =
     (case ah_thread (fst s) of
        Exited \<Rightarrow> Ok s
      | AtLoopTest \<Rightarrow>
          Ok ((fst s)\<lparr>ah_thread := (if ah_stop (fst s) then Exited else InGet)\<rparr>, snd s)
      | InGet \<Rightarrow>
          (case ah_queue (fst s) of
             [] \<Rightarrow> after_get env elapsed s
           | None # q \<Rightarrow>
               and_then
                 (if ah_batch (fst s) \<noteq> []
                  then AsyncHandler_flush_batch env (ah_batch (fst s))
                         ((fst s)\<lparr>ah_queue := q\<rparr>, snd s)
                  else Ok ((fst s)\<lparr>ah_queue := q\<rparr>, snd s))
                 (\<lambda>s1. Ok ((fst s1)\<lparr>ah_thread := Exited\<rparr>, snd s1))
           | Some e # q \<Rightarrow>
               after_get env elapsed
                 ((fst s)\<lparr>ah_queue := q, ah_batch := ah_batch (fst s) @ [e]\<rparr>, snd s)))"

text \<open>The steps the thread takes while another thread waits; one clock answer per step.\<close>

definition consumer_run ::
  "'v pyenv \<Rightarrow> bool list \<Rightarrow> 'v AsyncHandler \<times> 'v world \<Rightarrow> ('v AsyncHandler \<times> 'v world) res" where
  "consumer_run env schedule s = for_each (consumer_step env) schedule s"

text \<open>\<^verbatim>\<open>flush\<close>: poll until the queue is empty or the deadline passes (the end of the
  schedule), then flush the underlying handler.\<close>

fun poll_queue ::
  "'v pyenv \<Rightarrow> bool list \<Rightarrow> 'v AsyncHandler \<times> 'v world \<Rightarrow> ('v AsyncHandler \<times> 'v world) res" where
  "poll_queue env [] s = Ok s"
| "poll_queue env (b # bs) s =
     (if ah_queue (fst s) = [] then Ok s
      else and_then (consumer_step env b s) (poll_queue env bs))"

definition AsyncHandler_flush ::
  "'v pyenv \<Rightarrow> bool list \<Rightarrow> 'v AsyncHandler \<times> 'v world \<Rightarrow> ('v AsyncHandler \<times> 'v world) res" where
  "AsyncHandler_flush env schedule s =
     and_then (suppress (poll_queue env schedule s)) (on_underlying Sink_flush)"

text \<open>
  \<^verbatim>\<open>close\<close>: set \<^verbatim>\<open>_stop\<close>, try to enqueue the sentinel, join the thread for at most five
  seconds (the schedule is what the thread does meanwhile), then flush and close the
  underlying handler and report the dropped entries.
\<close>

definition AsyncHandler_close ::
  "'v pyenv \<Rightarrow> bool list \<Rightarrow> 'v AsyncHandler \<times> 'v world \<Rightarrow> ('v AsyncHandler \<times> 'v world) res" where
  "AsyncHandler_close env schedule s =
     (let a1 = (fst s)\<lparr>ah_stop := True\<rparr>;
          a2 = (if queue_full a1 then a1 else enqueue None a1)
      in and_then (consumer_run env schedule (a2, snd s))
           (\<lambda>s3. and_then
              (on_underlying Sink_flush
                 (if ah_thread (fst s3) \<noteq> Exited
                  then (fst s3, print_stderr
                          ''AsyncHandler: Worker thread did not terminate in time'' (snd s3))
                  else s3))
              (\<lambda>s4. and_then (on_underlying Sink_close s4)
                 (\<lambda>s5. Ok (if ah_dropped_count (fst s5) > 0
                            then (fst s5, print_stderr ''AsyncHandler: Dropped log entries''
                                            (snd s5))
                            else s5)))))"

section \<open>Handlers of a logger\<close>

datatype 'v handler = Sync "'v sink" | Async "'v AsyncHandler"

fun Handler_emit ::
  "'v pyenv \<Rightarrow> 'v entry \<Rightarrow> 'v handler \<times> 'v world \<Rightarrow> ('v handler \<times> 'v world) res" where
  "Handler_emit env e (Sync k, w) = map_res (apfst Sync) (Sink_emit env e (k, w))"
| "Handler_emit env e (Async a, w) = map_res (apfst Async) (AsyncHandler_emit env e (a, w))"



section \<open>Logger (logger.py)\<close>

record 'v Logger =
  lg_name :: string
  lg_config :: "'v LogConfig"
  lg_context :: "'v dict"
  lg_handlers :: "'v handler list"

text \<open>
  What one call reads from the interpreter and the operating system: the stack of frames
  that called the method (the caller's frame first), the clock as
  \<^verbatim>\<open>datetime.now(timezone.utc).isoformat()\<close>, and \<^verbatim>\<open>socket.gethostname()\<close>.
\<close>

record moment =
  m_stack :: "frame list"
  m_now :: string
  m_gethostname :: string

definition get_hostname :: "string \<Rightarrow> 'v world \<Rightarrow> string \<times> 'v world" where
  "get_hostname sys_host w =
     (case w_hostname w of
        None \<Rightarrow> (sys_host, w\<lparr>w_hostname := Some sys_host\<rparr>)
      | Some h \<Rightarrow> (h, w))"

definition special_keys :: "string list" where
  "special_keys = [''correlation_id'', ''user_id'', ''trace_id'', ''span_id'']"

text \<open>The body of the promotion loop:
  \<^verbatim>\<open>if key in merged_context: entry[key] = merged_context[key]; del entry["context"][key]\<close>\<close>

definition promote :: "'v dict \<Rightarrow> 'v entry \<Rightarrow> string \<Rightarrow> 'v entry" where
  "promote merged_context entry key =
     (if has_key merged_context key
      then entry\<lparr>e_promoted := AList.update key (the (dict_get merged_context key))
                                  (e_promoted entry),
                 e_context := AList.delete key (e_context entry)\<rparr>
      else entry)"

definition exception_entry :: "pyexc \<Rightarrow> exc_desc" where
  "exception_entry x =
     \<lparr>x_type = exc_type x, x_message = exc_message x,
      x_stacktrace = (case exc_traceback x of None \<Rightarrow> [] | Some t \<Rightarrow> t)\<rparr>"

text \<open>The entry \<^verbatim>\<open>_log\<close> builds once the level test has passed; \<open>host\<close> is the result of
  \<^verbatim>\<open>_get_hostname()\<close>, \<open>stack\<close> the frames that called \<^verbatim>\<open>_log\<close>.\<close>

definition build_entry ::
  "'v Logger \<Rightarrow> frame list \<Rightarrow> string \<Rightarrow> string \<Rightarrow> LogLevel \<Rightarrow> string \<Rightarrow> pyexc option
     \<Rightarrow> 'v dict \<Rightarrow> 'v entry" where
  "build_entry self stack now host lvl message exception kwargs =
     (let source = capture_source_location 3 (capture_frame # log_frame # stack);
          merged_context = dict_merge (lg_context self) kwargs;
          entry = \<lparr>e_timestamp = now, e_level = level_name lvl, e_message = message,
                   e_service = cfg_service_name (lg_config self),
                   e_environment = cfg_environment (lg_config self),
                   e_version = cfg_version (lg_config self),
                   e_host = host, e_logger_name = lg_name self,
                   e_file = sl_file source, e_line = sl_line source,
                   e_function = sl_function source,
                   e_context = merged_context, e_promoted = [], e_exception = None\<rparr>;
          entry1 = foldl (promote merged_context) entry special_keys
      in case exception of
           None \<Rightarrow> entry1
         | Some x \<Rightarrow> entry1\<lparr>e_exception := Some (exception_entry x)\<rparr>)"

text \<open>\<^verbatim>\<open>for handler in self._handlers: handler.emit(entry)\<close>, each call noted in
  \<open>w_emitted\<close> with the handler's position.\<close>

fun emit_all ::
  "'v pyenv \<Rightarrow> 'v entry \<Rightarrow> nat \<Rightarrow> 'v handler list \<Rightarrow> 'v world
     \<Rightarrow> ('v handler list \<times> 'v world) res" where
  "emit_all env e i [] w = Ok ([], w)"
| "emit_all env e i (h # hs) w =
     (case Handler_emit env e (h, w\<lparr>w_emitted := w_emitted w @ [(i, e)]\<rparr>) of
        Ok s1 \<Rightarrow> map_res (apfst (Cons (fst s1))) (emit_all env e (Suc i) hs (snd s1))
      | Raise x s1 \<Rightarrow> Raise x (fst s1 # hs, snd s1)
      | Blocked s1 \<Rightarrow> Blocked (fst s1 # hs, snd s1))"

definition Logger_log ::
  "'v pyenv \<Rightarrow> moment \<Rightarrow> LogLevel \<Rightarrow> string \<Rightarrow> pyexc option \<Rightarrow> 'v dict
     \<Rightarrow> 'v Logger \<times> 'v world \<Rightarrow> ('v Logger \<times> 'v world) res" where
  "Logger_log env m lvl message exception kwargs s =
     (if level_value lvl < level_value (cfg_level (lg_config (fst s))) then Ok s
      else let hw = get_hostname (m_gethostname m) (snd s);
               entry = build_entry (fst s) (m_stack m) (m_now m) (fst hw) lvl message
                         exception kwargs
           in map_res (apfst (\<lambda>hs. (fst s)\<lparr>lg_handlers := hs\<rparr>))
                (emit_all env entry 0 (lg_handlers (fst s)) (snd hw)))"

text \<open>
  The call expression \<^verbatim>\<open>self._log(LEVEL, message, k1=v1, ..., **kwargs)\<close> made by a public
  method standing in frame \<open>caller\<close>. Python raises \<^verbatim>\<open>TypeError\<close> when \<open>kwargs\<close> repeats
  a positional parameter of \<^verbatim>\<open>_log\<close> or a keyword written at the call site; an
  \<^verbatim>\<open>exception\<close> key binds the parameter of that name. \<open>given\<close> is \<open>Some x\<close> when the call
  site writes \<^verbatim>\<open>exception=x\<close>; \<open>written\<close> holds the other keywords written there.
\<close>

definition call_log ::
  "'v pyenv \<Rightarrow> frame \<Rightarrow> moment \<Rightarrow> LogLevel \<Rightarrow> string \<Rightarrow> pyexc option option \<Rightarrow> 'v dict
     \<Rightarrow> 'v dict \<Rightarrow> 'v Logger \<times> 'v world \<Rightarrow> ('v Logger \<times> 'v world) res" where
  "call_log env caller m lvl message given written kwargs s =
     (if has_key kwargs ''self'' \<or> has_key kwargs ''level'' \<or> has_key kwargs ''message''
         \<or> (given \<noteq> None \<and> has_key kwargs ''exception'')
         \<or> (\<exists>k \<in> set (map fst written). has_key kwargs k)
      then Raise TypeError s
      else Logger_log env (m\<lparr>m_stack := caller # m_stack m\<rparr>) lvl message
             (case given of
                Some x \<Rightarrow> x
              | None \<Rightarrow> (case dict_get kwargs ''exception'' of
                           None \<Rightarrow> None
                         | Some v \<Rightarrow> exception_of env v))
             (written @ AList.delete ''exception'' kwargs) s)"

definition Logger_info ::
  "'v pyenv \<Rightarrow> moment \<Rightarrow> string \<Rightarrow> 'v dict \<Rightarrow> 'v Logger \<times> 'v world
     \<Rightarrow> ('v Logger \<times> 'v world) res" where
  "Logger_info env m message kwargs =
     call_log env (method_frame ''info'' 168) m INFO message None [] kwargs"

definition Logger_error ::
  "'v pyenv \<Rightarrow> moment \<Rightarrow> string \<Rightarrow> pyexc option \<Rightarrow> 'v dict \<Rightarrow> 'v Logger \<times> 'v world
     \<Rightarrow> ('v Logger \<times> 'v world) res" where
  "Logger_error env m message exception kwargs =
     call_log env (method_frame ''error'' 177) m ERROR message (Some exception) [] kwargs"

definition Logger_warning ::
  "'v pyenv \<Rightarrow> moment \<Rightarrow> string \<Rightarrow> 'v dict \<Rightarrow> 'v Logger \<times> 'v world
     \<Rightarrow> ('v Logger \<times> 'v world) res" where
  "Logger_warning env m message kwargs =
     call_log env (method_frame ''warning'' 181) m WARNING message None [] kwargs"

definition Logger_debug ::
  "'v pyenv \<Rightarrow> moment \<Rightarrow> string \<Rightarrow> 'v dict \<Rightarrow> 'v Logger \<times> 'v world
     \<Rightarrow> ('v Logger \<times> 'v world) res" where
  "Logger_debug env m message kwargs =
     call_log env (method_frame ''debug'' 185) m DEBUG message None [] kwargs"

definition Logger_critical ::
  "'v pyenv \<Rightarrow> moment \<Rightarrow> string \<Rightarrow> pyexc option \<Rightarrow> 'v dict \<Rightarrow> 'v Logger \<times> 'v world
     \<Rightarrow> ('v Logger \<times> 'v world) res" where
  "Logger_critical env m message exception kwargs =
     call_log env (method_frame ''critical'' 194) m CRITICAL message (Some exception) [] kwargs"









section \<open>Context values and \<^verbatim>\<open>with_context\<close>\<close>

text \<open>
  Context values are Python objects: immutable atoms, and references to mutable lists and
  dictionaries in a store. The store is the list of objects allocated so far, an address
  being an index; allocation appends. Aliasing and later mutation by the caller are updates
  of the store at an address.
\<close>

datatype pyval = VNone | VBool bool | VInt int | VFloat real | VStr string | VRef nat

datatype pyobj = OList "pyval list" | ODict "pyval dict"

type_synonym heap = "pyobj list"

type_synonym memo = "(nat \<times> nat) list"

text \<open>The values an object holds, and the same object holding other values.\<close>

fun items_of :: "pyobj \<Rightarrow> pyval list" where
  "items_of (OList xs) = xs"
| "items_of (ODict kvs) = map snd kvs"

fun with_items :: "pyobj \<Rightarrow> pyval list \<Rightarrow> pyobj" where
  "with_items (OList xs) ys = OList ys"
| "with_items (ODict kvs) ys = ODict (zip (map fst kvs) ys)"

text \<open>
  \<^verbatim>\<open>copy.deepcopy(x, memo)\<close>. An atom is returned as it is. For a list or a dictionary the
  memo is consulted first; otherwise a new object is allocated and entered in the memo
  before the elements are copied in order, so that sharing and cycles are kept. The first
  argument bounds the depth of the recursion; \<open>None\<close> is the bound reached (or an address
  outside the store).
\<close>

fun copy_items ::
  "(pyval \<Rightarrow> memo \<times> heap \<Rightarrow> (pyval \<times> memo \<times> heap) option) \<Rightarrow> pyval list \<Rightarrow> memo \<times> heap
     \<Rightarrow> (pyval list \<times> memo \<times> heap) option" where
  "copy_items cp [] s = Some ([], s)"
| "copy_items cp (x # xs) s =
     (case cp x s of
        None \<Rightarrow> None
      | Some (x', s1) \<Rightarrow>
          (case copy_items cp xs s1 of
             None \<Rightarrow> None
           | Some (xs', s2) \<Rightarrow> Some (x' # xs', s2)))"

definition copy_object ::
  "(pyval \<Rightarrow> memo \<times> heap \<Rightarrow> (pyval \<times> memo \<times> heap) option) \<Rightarrow> nat \<Rightarrow> memo \<times> heap
     \<Rightarrow> (pyval \<times> memo \<times> heap) option" where
  "copy_object cp a s =
     (case map_of (fst s) a of
        Some a' \<Rightarrow> Some (VRef a', s)
      | None \<Rightarrow>
          (if a < length (snd s)
           then (let a' = length (snd s); x = snd s ! a
                 in case copy_items cp (items_of x)
                           ((a, a') # fst s, snd s @ [with_items x []]) of
                      None \<Rightarrow> None
                    | Some (ys, m2, h2) \<Rightarrow> Some (VRef a', m2, h2[a' := with_items x ys]))
           else None))"

primrec deepcopy :: "nat \<Rightarrow> pyval \<Rightarrow> memo \<times> heap \<Rightarrow> (pyval \<times> memo \<times> heap) option" where
  "deepcopy 0 v s = (case v of VRef a \<Rightarrow> copy_object (\<lambda>x t. None) a s | _ \<Rightarrow> Some (v, s))"
| "deepcopy (Suc n) v s = (case v of VRef a \<Rightarrow> copy_object (deepcopy n) a s | _ \<Rightarrow> Some (v, s))"

text \<open>\<^verbatim>\<open>for key, value in kwargs.items(): new_context[key] = copy.deepcopy(value)\<close>\<close>

fun store_copies :: "nat \<Rightarrow> pyval dict \<Rightarrow> pyval dict \<times> heap \<Rightarrow> (pyval dict \<times> heap) option" where
  "store_copies fuel [] s = Some s"
| "store_copies fuel (kv # kwargs) s =
     (case deepcopy fuel (snd kv) ([], snd s) of
        None \<Rightarrow> None
      | Some (v', m, h1) \<Rightarrow> store_copies fuel kwargs (AList.update (fst kv) v' (fst s), h1))"

text \<open>
  \<^verbatim>\<open>with_context\<close>. The receiver's \<^verbatim>\<open>_context\<close> dictionary is copied with one memo for all
  its values; the new logger shares name, configuration and handlers.
\<close>

definition Logger_with_context ::
  "nat \<Rightarrow> pyval dict \<Rightarrow> pyval Logger \<times> heap \<Rightarrow> (pyval Logger \<times> heap) option" where
  "Logger_with_context fuel kwargs s =
     (case copy_items (deepcopy fuel) (map snd (lg_context (fst s))) ([], snd s) of
        None \<Rightarrow> None
      | Some (vals, m, h1) \<Rightarrow>
          (case store_copies fuel kwargs (zip (map fst (lg_context (fst s))) vals, h1) of
             None \<Rightarrow> None
           | Some (new_context, h2) \<Rightarrow>
               Some (\<lparr>lg_name = lg_name (fst s), lg_config = lg_config (fst s),
                      lg_context = new_context, lg_handlers = lg_handlers (fst s)\<rparr>, h2)))"

text \<open>
  What a value looks like from outside, to a given depth: the tree of atoms under it, cut
  where the depth is used up. Two values with the same view at every depth cannot be told
  apart by reading them.
\<close>

datatype view = Atom pyval | ListOf "view list" | DictOf "(string \<times> view) list" | Cut

primrec view_of :: "nat \<Rightarrow> heap \<Rightarrow> pyval \<Rightarrow> view" where
  "view_of 0 h v = (case v of VRef a \<Rightarrow> Cut | _ \<Rightarrow> Atom v)"
| "view_of (Suc d) h v =
     (case v of
        VRef a \<Rightarrow>
          (if a < length h
           then (case h ! a of
                   OList xs \<Rightarrow> ListOf (map (view_of d h) xs)
                 | ODict kvs \<Rightarrow> DictOf (map (\<lambda>kv. (fst kv, view_of d h (snd kv))) kvs))
           else Cut)
      | _ \<Rightarrow> Atom v)"

text \<open>A store without dangling references, and a value that points into it.\<close>

fun val_in :: "nat \<Rightarrow> pyval \<Rightarrow> bool" where
  "val_in n (VRef a) = (a < n)"
| "val_in n v = True"

definition heap_wf :: "heap \<Rightarrow> bool" where
  "heap_wf h = (\<forall>x \<in> set h. \<forall>v \<in> set (items_of x). val_in (length h) v)"

section \<open>Notions used in the proofs\<close>

text \<open>An operation is quiet for an observation when it never blocks and leaves the
  observation as it was, whether it returns or raises.\<close>

definition quiet :: "('s \<Rightarrow> 'o) \<Rightarrow> ('s \<Rightarrow> 's res) \<Rightarrow> bool" where
  "quiet obs op = (\<forall>s. \<not> blocks (op s) \<and> obs (state_of (op s)) = obs s)"

text \<open>The body of \<^verbatim>\<open>_do_rotate\<close> for a given path.\<close>

definition rotate_at :: "string \<Rightarrow> RotatingFileHandler \<times> 'v world \<Rightarrow> (RotatingFileHandler \<times> 'v world) res" where
  "rotate_at p = (\<lambda>s. and_then
        (if is_open (rh_file (fst s))
         then with_snd ((fst s)\<lparr>rh_file := mark_closed (rh_file (fst s))\<rparr>) (file_close (snd s))
         else Ok s)
        (\<lambda>s1. and_then
           (with_snd (fst s1)
              (for_each (\<lambda>i. retire (backup_path p i) (backup_path p (i + 1)))
                 (backup_range (rh_backup_count (fst s1))) (snd s1)))
           (\<lambda>s2. and_then (with_snd (fst s2) (retire p (backup_path p 1) (snd s2)))
              (\<lambda>s3. and_then
                 (with_snd ((fst s3)\<lparr>rh_current_size := 0\<rparr>) (fs_open_append p (snd s3)))
                 (\<lambda>s4. Ok ((fst s4)\<lparr>rh_file := Some \<lparr>f_path = p, f_closed = False\<rparr>\<rparr>,
                            snd s4))))))"


text \<open>The instrumentation, read from a pair of a handler state and a world.\<close>

abbreviation emitted_of :: "'h \<times> 'v world \<Rightarrow> (nat \<times> 'v entry) list" where
  "emitted_of s \<equiv> w_emitted (snd s)"

text \<open>N emit calls in a row, the background thread taking no step in between.\<close>

definition emit_each ::
  "'v pyenv \<Rightarrow> 'v entry list \<Rightarrow> 'v AsyncHandler \<times> 'v world \<Rightarrow> ('v AsyncHandler \<times> 'v world) res" where
  "emit_each env es s = for_each (AsyncHandler_emit env) es s"

text \<open>The room left in a queue for a burst of \<open>n\<close> entries.\<close>

definition room :: "'v AsyncHandler \<Rightarrow> nat \<Rightarrow> nat" where
  "room a n = (if ah_maxsize a > 0 then nat (ah_maxsize a - int (length (ah_queue a))) else n)"

text \<open>What can happen to an async handler: a call of one of its three methods by some
  thread, or a step of its background thread.\<close>

datatype 'v async_call =
    CallEmit "'v entry"
  | CallFlush "bool list"
  | CallClose "bool list"
  | ThreadStep bool

fun perform ::
  "'v pyenv \<Rightarrow> 'v async_call \<Rightarrow> 'v AsyncHandler \<times> 'v world \<Rightarrow> ('v AsyncHandler \<times> 'v world) res" where
  "perform env (CallEmit e) s = AsyncHandler_emit env e s"
| "perform env (CallFlush schedule) s = AsyncHandler_flush env schedule s"
| "perform env (CallClose schedule) s = AsyncHandler_close env schedule s"
| "perform env (ThreadStep elapsed) s = consumer_step env elapsed s"

fun run_calls ::
  "'v pyenv \<Rightarrow> 'v async_call list \<Rightarrow> 'v AsyncHandler \<times> 'v world \<Rightarrow> 'v AsyncHandler \<times> 'v world" where
  "run_calls env [] s = s"
| "run_calls env (c # cs) s = run_calls env cs (state_of (perform env c s))"

text \<open>The \<^verbatim>\<open>_stop\<close> flag, read from a pair of a handler state and a world.\<close>

abbreviation stop_of :: "'v AsyncHandler \<times> 'v world \<Rightarrow> bool" where
  "stop_of s \<equiv> ah_stop (fst s)"

text \<open>The value a memo makes of a value, and whether the memo covers it.\<close>

fun ren :: "memo \<Rightarrow> pyval \<Rightarrow> pyval" where
  "ren m (VRef a) = VRef (the (map_of m a))"
| "ren m v = v"

fun covered :: "memo \<Rightarrow> pyval \<Rightarrow> bool" where
  "covered m (VRef a) = (map_of m a \<noteq> None)"
| "covered m v = True"

fun new_val :: "nat \<Rightarrow> nat \<Rightarrow> pyval \<Rightarrow> bool" where
  "new_val lo hi (VRef a) = (lo \<le> a \<and> a < hi)"
| "new_val lo hi v = True"

text \<open>The copy at \<open>a'\<close> of the object at \<open>a\<close> of the store \<open>h0\<close> is finished.\<close>

definition complete :: "heap \<Rightarrow> memo \<Rightarrow> heap \<Rightarrow> nat \<Rightarrow> nat \<Rightarrow> bool" where
  "complete h0 m h a a' =
     (h ! a' = with_items (h0 ! a) (map (ren m) (items_of (h0 ! a)))
      \<and> (\<forall>v \<in> set (items_of (h0 ! a)). covered m v))"

text \<open>
  The invariant of a deep copy that started in the store \<open>h0\<close>: the objects of \<open>h0\<close> are
  as they were; the memo takes addresses of \<open>h0\<close> to distinct later addresses; every copy
  entered in the memo is finished, but for those of the set \<open>unfinished\<close>; and the objects
  allocated since refer to one another only.
\<close>

definition copy_inv :: "heap \<Rightarrow> nat set \<Rightarrow> memo \<times> heap \<Rightarrow> bool" where
  "copy_inv h0 unfinished s =
     (length h0 \<le> length (snd s) \<and> take (length h0) (snd s) = h0
      \<and> (\<forall>a a'. map_of (fst s) a = Some a' \<longrightarrow>
             a < length h0 \<and> length h0 \<le> a' \<and> a' < length (snd s))
      \<and> (\<forall>a b a'. map_of (fst s) a = Some a' \<longrightarrow> map_of (fst s) b = Some a' \<longrightarrow> a = b)
      \<and> (\<forall>a a'. map_of (fst s) a = Some a' \<longrightarrow> a \<notin> unfinished \<longrightarrow>
             complete h0 (fst s) (snd s) a a')
      \<and> (\<forall>b. length h0 \<le> b \<longrightarrow> b < length (snd s) \<longrightarrow>
             (\<forall>v \<in> set (items_of (snd s ! b)). new_val (length h0) (length (snd s)) v)))"

text \<open>What a copy of the value \<open>v\<close>, started in state \<open>s\<close>, has achieved in \<open>r\<close>.\<close>

definition copy_post ::
  "heap \<Rightarrow> nat set \<Rightarrow> memo \<times> heap \<Rightarrow> pyval \<Rightarrow> pyval \<times> memo \<times> heap \<Rightarrow> bool" where
  "copy_post h0 unfinished s v r =
     (copy_inv h0 unfinished (snd r)
      \<and> map_of (fst s) \<subseteq>\<^sub>m map_of (fst (snd r))
      \<and> take (length (snd s)) (snd (snd r)) = snd s
      \<and> covered (fst (snd r)) v \<and> fst r = ren (fst (snd r)) v)"

definition copier_sound ::
  "heap \<Rightarrow> (pyval \<Rightarrow> memo \<times> heap \<Rightarrow> (pyval \<times> memo \<times> heap) option) \<Rightarrow> bool" where
  "copier_sound h0 cp =
     (\<forall>unfinished s v r. copy_inv h0 unfinished s \<longrightarrow> val_in (length h0) v \<longrightarrow> cp v s = Some r
        \<longrightarrow> copy_post h0 unfinished s v r)"

text \<open>The addresses of \<open>h0\<close> not yet in the memo.\<close>

definition unmemoized :: "heap \<Rightarrow> memo \<times> heap \<Rightarrow> nat" where
  "unmemoized h0 s = length h0 - card (dom (map_of (fst s)))"

definition copier_total ::
  "heap \<Rightarrow> nat \<Rightarrow> (pyval \<Rightarrow> memo \<times> heap \<Rightarrow> (pyval \<times> memo \<times> heap) option) \<Rightarrow> bool" where
  "copier_total h0 n cp =
     (\<forall>unfinished s v. copy_inv h0 unfinished s \<longrightarrow> val_in (length h0) v \<longrightarrow> unmemoized h0 s \<le> n
        \<longrightarrow> cp v s \<noteq> None)"

text \<open>The copy \<open>v'\<close> in the store \<open>h\<close> is made of objects allocated after \<open>h0\<close> and looks, at
  every depth, as \<open>v\<close> looked in \<open>h0\<close>.\<close>

definition looks_like :: "heap \<Rightarrow> heap \<Rightarrow> pyval \<Rightarrow> pyval \<Rightarrow> bool" where
  "looks_like h0 h v' v =
     (new_val (length h0) (length h) v' \<and> (\<forall>d. view_of d h v' = view_of d h0 v))"

definition dict_like :: "heap \<Rightarrow> heap \<Rightarrow> pyval dict \<Rightarrow> pyval dict \<Rightarrow> bool" where
  "dict_like h0 h c' c = list_all2 (\<lambda>p' p. fst p' = fst p \<and> looks_like h0 h (snd p') (snd p)) c' c"

section \<open>Concrete objects for the examples\<close>

definition demo_env :: "pyval pyenv" where
  "demo_env = \<lparr>format_json = (\<lambda>e. Some (e_message e)), format_text = (\<lambda>e. Some (e_message e)),
               exception_of = (\<lambda>v. None), float_value = VFloat\<rparr>"

definition demo_config :: "LogLevel \<Rightarrow> pyval LogConfig" where
  "demo_config threshold =
     \<lparr>cfg_service_name = ''svc'', cfg_environment = ''development'', cfg_version = ''0.0.0'',
      cfg_level = threshold, cfg_console_enabled = True, cfg_console_format = ''json'',
      cfg_console_colors = True, cfg_file_enabled = True, cfg_file_path = ''app.log'',
      cfg_max_file_size_mb = 100, cfg_max_backup_count = 5, cfg_async_enabled = True,
      cfg_queue_size = 10000, cfg_default_context = []\<rparr>"

definition collector :: "pyval handler" where
  "collector = Sync (Custom \<lparr>cu_entries = [], cu_raises = False\<rparr>)"

definition demo_logger :: "LogLevel \<Rightarrow> pyval handler list \<Rightarrow> pyval Logger" where
  "demo_logger threshold hs =
     \<lparr>lg_name = ''svc'', lg_config = demo_config threshold, lg_context = [], lg_handlers = hs\<rparr>"

definition demo_world :: "pyval world" where
  "demo_world = \<lparr>w_files = Map.empty, w_stdout = [], w_stderr = [], w_faults = [],
                 w_hostname = None, w_emitted = []\<rparr>"

definition demo_frame :: frame where
  "demo_frame = \<lparr>co_filename = ''/srv/app/main.py'', f_lineno = 12, co_name = ''handle''\<rparr>"

definition info_frame :: frame where
  "info_frame = method_frame ''info'' 168"

definition demo_moment :: "frame list \<Rightarrow> moment" where
  "demo_moment stack = \<lparr>m_stack = stack, m_now = ''2026-01-01T00:00:00+00:00'', m_gethostname = ''host1''\<rparr>"

text \<open>A child logger made by \<^verbatim>\<open>with_context(user_id=u)\<close> in an empty store.\<close>

definition demo_child :: "string \<Rightarrow> pyval Logger \<Rightarrow> pyval Logger" where
  "demo_child u lg = fst (the (Logger_with_context 0 [(''user_id'', VStr u)] (lg, [])))"





definition demo_record :: "string \<Rightarrow> pyval entry" where
  "demo_record msg =
     \<lparr>e_timestamp = ''now'', e_level = ''INFO'', e_message = msg, e_service = ''svc'',
      e_environment = ''development'', e_version = ''0.0.0'', e_host = ''host1'',
      e_logger_name = ''svc'', e_file = ''main.py'', e_line = 12, e_function = ''handle'',
      e_context = [], e_promoted = [], e_exception = None\<rparr>"

text \<open>
  \<^verbatim>\<open>AsyncHandler(FileHandler("app.log"), queue_size=10, on_full=BLOCK)\<close> in an empty world,
  and the state after its thread has entered \<^verbatim>\<open>get\<close> and two records have been emitted.
\<close>

definition block_handler :: "pyval AsyncHandler \<times> pyval world" where
  "block_handler =
     (let s = state_of (FileHandler_init ''app.log'' demo_world)
      in (AsyncHandler_init (File (fst s)) 10 BLOCK 100, snd s))"

definition pending :: "pyval AsyncHandler \<times> pyval world" where
  "pending = run_calls demo_env
               [ThreadStep False, CallEmit (demo_record ''first''),
                CallEmit (demo_record ''second'')] block_handler"

text \<open>\<^verbatim>\<open>RotatingFileHandler("app.log", max_bytes=10, backup_count=0)\<close> opened on a file of
  eight bytes.\<close>

definition small_rotating :: "RotatingFileHandler \<times> pyval world" where
  "small_rotating =
     state_of (RotatingFileHandler_init ''app.log'' 10 0
                 (demo_world\<lparr>w_files := [''app.log'' \<mapsto> ''12345678'']\<rparr>))"

text \<open>A store holding one list that contains itself.\<close>

definition loop_heap :: heap where
  "loop_heap = [OList [VInt 1, VRef 0]]"

section \<open>Outcomes, primitives and handlers: basic facts\<close>

lemma sys_call_not_blocks: "\<not> blocks (sys_call f w)"
  by (simp add: sys_call_def split: list.splits)

lemma sys_call_emitted:
  "(\<And>w. w_emitted (f w) = w_emitted w) \<Longrightarrow> w_emitted (state_of (sys_call f w)) = w_emitted w"
  by (simp add: sys_call_def split: list.splits)

lemma and_then_not_blocks:
  "\<not> blocks r \<Longrightarrow> (\<And>s. \<not> blocks (f s)) \<Longrightarrow> \<not> blocks (and_then r f)"
  by (cases r) auto

lemma and_then_state:
  "Q (state_of r) \<Longrightarrow> (\<And>s. Q s \<Longrightarrow> Q (state_of (f s))) \<Longrightarrow> Q (state_of (and_then r f))"
  by (cases r) auto

lemma suppress_is_ok: "\<not> blocks r \<Longrightarrow> is_ok (suppress r)"
  by (cases r) auto

lemma suppress_not_raises: "\<not> raises (suppress r)"
  by (cases r) auto

lemma state_of_suppress [simp]: "state_of (suppress r) = state_of r"
  by (cases r) auto

lemma blocks_suppress [simp]: "blocks (suppress r) = blocks r"
  by (cases r) auto

lemma state_of_with_snd [simp]: "state_of (with_snd a r) = (a, state_of r)"
  by (cases r) auto

lemma blocks_with_snd [simp]: "blocks (with_snd a r) = blocks r"
  by (cases r) auto

lemma state_of_map_res [simp]: "state_of (map_res f r) = f (state_of r)"
  by (cases r) auto

lemma blocks_map_res [simp]: "blocks (map_res f r) = blocks r"
  by (cases r) auto

lemma raises_map_res [simp]: "raises (map_res f r) = raises r"
  by (cases r) auto

lemma is_ok_map_res [simp]: "is_ok (map_res f r) = is_ok r"
  by (cases r) auto



lemma quietD: "quiet obs op \<Longrightarrow> \<not> blocks (op s)" "quiet obs op \<Longrightarrow> obs (state_of (op s)) = obs s"
  by (simp_all add: quiet_def)

lemma quiet_sys_call: "(\<And>w. w_emitted (f w) = w_emitted w) \<Longrightarrow> quiet w_emitted (sys_call f)"
  by (simp add: quiet_def sys_call_not_blocks sys_call_emitted)

lemma quiet_prims:
  "quiet w_emitted (stream_write s)" "quiet w_emitted stream_flush"
  "quiet w_emitted (fs_mkdir_parents p)"
  "quiet w_emitted (fs_open_append p)" "quiet w_emitted (fs_unlink p)"
  "quiet w_emitted (fs_rename p q)"
  "quiet w_emitted (file_write p s)" "quiet w_emitted file_flush" "quiet w_emitted file_close"
  unfolding stream_write_def stream_flush_def fs_mkdir_parents_def fs_open_append_def
    fs_unlink_def fs_rename_def file_write_def file_flush_def file_close_def
  by (rule quiet_sys_call; simp split: option.splits)+

lemma quiet_and_then:
  assumes "quiet obs f" "quiet obs g"
  shows "quiet obs (\<lambda>s. and_then (f s) g)"
  unfolding quiet_def
proof (intro allI)
  fix s
  have f: "\<not> blocks (f s)" "obs (state_of (f s)) = obs s"
    using assms(1) by (simp_all add: quiet_def)
  have g: "\<And>t. \<not> blocks (g t)" "\<And>t. obs (state_of (g t)) = obs t"
    using assms(2) by (simp_all add: quiet_def)
  show "\<not> blocks (and_then (f s) g) \<and> obs (state_of (and_then (f s) g)) = obs s"
    using f g by (cases "f s") auto
qed

lemma quiet_Ok: "quiet obs Ok"
  by (simp add: quiet_def)

lemma quiet_Ok_upd: "(\<And>s. obs (f s) = obs s) \<Longrightarrow> quiet obs (\<lambda>s. Ok (f s))"
  by (simp add: quiet_def)

lemma quiet_Raise: "quiet obs (Raise x)"
  by (simp add: quiet_def)

lemma quiet_if: "quiet obs f \<Longrightarrow> quiet obs g \<Longrightarrow> quiet obs (\<lambda>s. if c s then f s else g s)"
  by (simp add: quiet_def)

lemma quiet_suppress: "quiet obs f \<Longrightarrow> quiet obs (\<lambda>s. suppress (f s))"
  by (simp add: quiet_def)

lemma quiet_with_snd:
  "quiet w_emitted f \<Longrightarrow> quiet (\<lambda>s. w_emitted (snd s)) (\<lambda>s. with_snd (g s) (f (snd s)))"
  by (simp add: quiet_def)

lemma quiet_retire: "quiet w_emitted (retire src dst)"
  unfolding retire_def
  by (intro quiet_if quiet_and_then quiet_prims quiet_Ok)

lemma quiet_for_each: "(\<And>x. quiet obs (body x)) \<Longrightarrow> quiet obs (for_each body xs)"
proof (induction xs)
  case Nil
  then show ?case by (simp add: quiet_def)
next
  case (Cons x xs)
  have "quiet obs (\<lambda>w. and_then (body x w) (for_each body xs))"
    by (rule quiet_and_then) (use Cons in auto)
  then show ?case by (simp add: quiet_def)
qed


lemma quiet_ConsoleHandler_emit: "quiet emitted_of (ConsoleHandler_emit env e)"
  unfolding ConsoleHandler_emit_def
  apply (rule quiet_suppress)
  apply (simp add: quiet_def split: option.splits)
  apply (intro allI impI conjI)
   apply (rule quietD(1)[OF quiet_and_then[OF quiet_prims(1) quiet_prims(2)]])
  apply (rule quietD(2)[OF quiet_and_then[OF quiet_prims(1) quiet_prims(2)]])
  done

lemma quiet_FileHandler_emit: "quiet emitted_of (FileHandler_emit env e)"
  unfolding FileHandler_emit_def
  apply (rule quiet_suppress)
  apply (simp add: quiet_def split: option.splits)
  apply (intro allI impI conjI)
   apply (rule quietD(1)[OF quiet_and_then[OF quiet_prims(7) quiet_prims(8)]])
  apply (rule quietD(2)[OF quiet_and_then[OF quiet_prims(7) quiet_prims(8)]])
  done


lemma quiet_lift_world:
  "quiet w_emitted f \<Longrightarrow> quiet emitted_of (\<lambda>s. with_snd (g s) (f (snd s)))"
  by (simp add: quiet_def)


lemma do_rotate_at: "RotatingFileHandler_do_rotate s = rotate_at (rh_file_path (fst s)) s"
  by (simp add: RotatingFileHandler_do_rotate_def rotate_at_def Let_def)

lemma quiet_for_each_world:
  "(\<And>x. quiet w_emitted (body x)) \<Longrightarrow> quiet emitted_of (\<lambda>s. with_snd (g s) (for_each body (xs s) (snd s)))"
  using quiet_for_each[of w_emitted body] by (simp add: quiet_def)

lemma quiet_rotate_at: "quiet emitted_of (rotate_at p)"
  unfolding rotate_at_def
  apply (rule quiet_and_then)
   apply (rule quiet_if)
    apply (rule quiet_lift_world, rule quiet_prims)
   apply (rule quiet_Ok)
  apply (rule quiet_and_then)
   apply (rule quiet_for_each_world, rule quiet_retire)
  apply (rule quiet_and_then)
   apply (rule quiet_lift_world, rule quiet_retire)
  apply (rule quiet_and_then)
   apply (rule quiet_lift_world, rule quiet_prims)
  apply (rule quiet_Ok_upd)
  apply simp
  done

lemma quiet_do_rotate: "quiet emitted_of RotatingFileHandler_do_rotate"
  unfolding quiet_def do_rotate_at
  by (intro allI conjI quietD[OF quiet_rotate_at])

lemma quiet_RotatingFileHandler_emit: "quiet emitted_of (RotatingFileHandler_emit env e)"
proof -
  have w: "\<And>p out. quiet w_emitted (\<lambda>w. and_then (file_write p out w) file_flush)"
    by (intro quiet_and_then quiet_prims)
  have body: "\<And>out. quiet emitted_of (\<lambda>s. and_then
                  (if RotatingFileHandler_should_rotate (fst s) (int (length (out @ [CHR 0x0A])))
                   then RotatingFileHandler_do_rotate s else Ok s)
                  (\<lambda>s1. if is_open (rh_file (fst s1))
                         then and_then
                                (with_snd (fst s1)
                                   (and_then (file_write (f_path (the (rh_file (fst s1)))) (out @ [CHR 0x0A])
                                                (snd s1))
                                      file_flush))
                                (\<lambda>s2. Ok ((fst s2)\<lparr>rh_current_size :=
                                                      rh_current_size (fst s2) + (int (length (out @ [CHR 0x0A])))\<rparr>,
                                           snd s2))
                         else Ok s1))"
    apply (rule quiet_and_then)
     apply (rule quiet_if, rule quiet_do_rotate, rule quiet_Ok)
    apply (rule quiet_if)
     apply (rule quiet_and_then)
      apply (simp add: quiet_def quietD[OF w])
     apply (rule quiet_Ok_upd, simp)
    apply (rule quiet_Ok)
    done
  show ?thesis
    unfolding RotatingFileHandler_emit_def Let_def
    apply (rule quiet_suppress)
    apply (simp only: quiet_def)
    apply (intro allI)
    subgoal for s
      apply (cases "format_json env e")
       apply simp
      apply (simp only: option.case)
      apply (intro conjI quietD[OF body])
      done
    done
qed

lemma quiet_CustomHandler_emit: "quiet emitted_of (CustomHandler_emit e)"
  by (simp add: quiet_def CustomHandler_emit_def)

lemma quiet_map_res_apfst:
  "quiet emitted_of f \<Longrightarrow> quiet emitted_of (\<lambda>s. map_res (apfst c) (f (g s, snd s)))"
  by (simp add: quiet_def)

lemma quiet_Sink_emit: "quiet emitted_of (Sink_emit env e)"
  unfolding quiet_def
proof (intro allI)
  fix s :: "'a sink \<times> 'a world"
  obtain k w where s: "s = (k, w)" by (cases s)
  show "\<not> blocks (Sink_emit env e s) \<and> emitted_of (state_of (Sink_emit env e s)) = emitted_of s"
    unfolding s
    using quietD[OF quiet_ConsoleHandler_emit, of env e] quietD[OF quiet_FileHandler_emit, of env e]
      quietD[OF quiet_RotatingFileHandler_emit, of env e] quietD[OF quiet_CustomHandler_emit, of e]
    by (cases k) simp_all
qed


lemma raises_suppress [simp]: "\<not> raises (suppress r)"
  by (cases r) auto

lemma raises_with_snd [simp]: "raises (with_snd a r) = raises r"
  by (cases r) auto




lemma quiet_on_underlying:
  "quiet emitted_of f \<Longrightarrow> quiet emitted_of (on_underlying f)"
  by (simp add: quiet_def on_underlying_def)

lemma AsyncHandler_emit_emitted:
  "emitted_of (state_of (AsyncHandler_emit env e s)) = emitted_of s"
  using quietD(2)[OF quiet_on_underlying[OF quiet_Sink_emit], of env e]
  by (simp add: AsyncHandler_emit_def enqueue_def count_dropped_def split: QueueFullBehavior.splits)

lemma AsyncHandler_emit_not_raises: "\<not> raises (AsyncHandler_emit env e s)"
  by (simp add: AsyncHandler_emit_def)

lemma AsyncHandler_emit_blocks:
  "blocks (AsyncHandler_emit env e s) \<longleftrightarrow>
     \<not> ah_stop (fst s) \<and> ah_on_full (fst s) = BLOCK \<and> queue_full (fst s)"
  using quietD(1)[OF quiet_on_underlying[OF quiet_Sink_emit], of env e]
  by (simp add: AsyncHandler_emit_def split: QueueFullBehavior.splits)

lemma ah_on_full_on_underlying [simp]:
  "ah_on_full (fst (state_of (on_underlying f s))) = ah_on_full (fst s)"
  by (simp add: on_underlying_def)


lemma Handler_emit_emitted:
  "w_emitted (snd (state_of (Handler_emit env e (h, w)))) = w_emitted w"
  using quietD(2)[OF quiet_Sink_emit, of env e] AsyncHandler_emit_emitted[of env e]
  by (cases h) simp_all



lemma walk_back_drop: "walk_back n fs = drop n fs"
  by (induction n fs rule: walk_back.induct) simp_all

lemma demo_entry:
  "build_entry (demo_logger WARNING hs) [method_frame ''info'' 168, demo_frame] ''t'' ''host1'' ERROR ''boom'' None [] =
     \<lparr>e_timestamp = ''t'', e_level = ''ERROR'', e_message = ''boom'', e_service = ''svc'',
      e_environment = ''development'', e_version = ''0.0.0'', e_host = ''host1'',
      e_logger_name = ''svc'', e_file = ''main.py'', e_line = 12, e_function = ''handle'',
      e_context = [], e_promoted = [], e_exception = None\<rparr>"
  by (simp add: build_entry_def demo_logger_def demo_config_def capture_source_location_def
      capture_frame_def log_frame_def demo_frame_def basename_def dict_merge_def special_keys_def
      promote_def has_key_def Let_def walk_back_drop)

lemma emit_all_trace:
  "\<exists>k \<le> length hs. w_emitted (snd (state_of (emit_all env e i hs w)))
       = w_emitted w @ map (\<lambda>j. (j, e)) [i ..< i + k]"
proof (induction hs arbitrary: i w)
  case Nil
  then show ?case by simp
next
  case (Cons h hs)
  let ?w0 = "w\<lparr>w_emitted := w_emitted w @ [(i, e)]\<rparr>"
  let ?r = "Handler_emit env e (h, ?w0)"
  have w1: "w_emitted (snd (state_of ?r)) = w_emitted w @ [(i, e)]"
    using Handler_emit_emitted[of env e h ?w0] by simp
  show ?case
  proof (cases ?r)
    case (Ok s1)
    from Cons.IH[of "Suc i" "snd s1"] obtain k where k: "k \<le> length hs"
      "w_emitted (snd (state_of (emit_all env e (Suc i) hs (snd s1))))
         = w_emitted (snd s1) @ map (\<lambda>j. (j, e)) [Suc i ..< Suc i + k]"
      by blast
    have u: "[i ..< i + Suc k] = i # [Suc i ..< Suc i + k]"
      by (subst upt_rec) simp
    have "w_emitted (snd (state_of (emit_all env e i (h # hs) w)))
            = w_emitted w @ map (\<lambda>j. (j, e)) [i ..< i + Suc k]"
      unfolding u using Ok k(2) w1 by simp
    with k(1) show ?thesis by (intro exI[of _ "Suc k"]) simp
  next
    case (Raise x s1)
    have u: "[i ..< i + Suc 0] = [i]" by simp
    have "w_emitted (snd (state_of (emit_all env e i (h # hs) w)))
            = w_emitted w @ map (\<lambda>j. (j, e)) [i ..< i + Suc 0]"
      unfolding u using Raise w1 by simp
    then show ?thesis by (intro exI[of _ "Suc 0"]) simp
  next
    case (Blocked s1)
    have u: "[i ..< i + Suc 0] = [i]" by simp
    have "w_emitted (snd (state_of (emit_all env e i (h # hs) w)))
            = w_emitted w @ map (\<lambda>j. (j, e)) [i ..< i + Suc 0]"
      unfolding u using Blocked w1 by simp
    then show ?thesis by (intro exI[of _ "Suc 0"]) simp
  qed
qed

lemma Logger_log_trace:
  "\<exists>k. w_emitted (snd (state_of (Logger_log env m lvl message exception kwargs (lg, w))))
       = w_emitted w @ map (\<lambda>j. (j, build_entry lg (m_stack m) (m_now m)
                                   (fst (get_hostname (m_gethostname m) w)) lvl message
                                   exception kwargs)) [0 ..< k]"
proof (cases "level_value lvl < level_value (cfg_level (lg_config lg))")
  case True
  then show ?thesis by (intro exI[of _ 0]) (simp add: Logger_log_def)
next
  case False
  let ?hw = "get_hostname (m_gethostname m) w"
  let ?e = "build_entry lg (m_stack m) (m_now m) (fst ?hw) lvl message exception kwargs"
  obtain k where "w_emitted (snd (state_of (emit_all env ?e 0 (lg_handlers lg) (snd ?hw))))
       = w_emitted (snd ?hw) @ map (\<lambda>j. (j, ?e)) [0 ..< 0 + k]"
    using emit_all_trace[of "lg_handlers lg" env ?e 0 "snd ?hw"] by blast
  moreover have "w_emitted (snd ?hw) = w_emitted w"
    by (simp add: get_hostname_def split: option.splits)
  ultimately show ?thesis using False
    by (intro exI[of _ k]) (simp add: Logger_log_def Let_def)
qed

lemma promote_fixed:
  "e_file (promote mc en k) = e_file en" "e_line (promote mc en k) = e_line en"
  "e_function (promote mc en k) = e_function en" "e_level (promote mc en k) = e_level en"
  "e_message (promote mc en k) = e_message en"
  by (simp_all add: promote_def)

lemma foldl_promote_fixed:
  "e_file (foldl (promote mc) en ks) = e_file en" "e_line (foldl (promote mc) en ks) = e_line en"
  "e_function (foldl (promote mc) en ks) = e_function en"
  "e_level (foldl (promote mc) en ks) = e_level en"
  "e_message (foldl (promote mc) en ks) = e_message en"
  by (induction ks arbitrary: en) (simp_all add: promote_fixed)

lemma build_entry_location:
  "e_file (build_entry lg stk now host lvl msg ex kw) = sl_file (capture_source_location 3 (capture_frame # log_frame # stk))"
  "e_line (build_entry lg stk now host lvl msg ex kw) = sl_line (capture_source_location 3 (capture_frame # log_frame # stk))"
  "e_function (build_entry lg stk now host lvl msg ex kw) = sl_function (capture_source_location 3 (capture_frame # log_frame # stk))"
  by (simp_all add: build_entry_def Let_def foldl_promote_fixed split: option.splits)

lemma capture_at_3:
  "capture_source_location 3 (a # b # stk) =
     (case drop 1 stk of
        [] \<Rightarrow> \<lparr>sl_file = ''<unknown>'', sl_line = 0, sl_function = ''<unknown>''\<rparr>
      | f # _ \<Rightarrow> \<lparr>sl_file = basename (co_filename f), sl_line = f_lineno f, sl_function = co_name f\<rparr>)"
  by (simp add: capture_source_location_def walk_back_drop numeral_3_eq_3 drop_Suc)

lemma has_key_iff: "has_key d k \<longleftrightarrow> dict_get d k \<noteq> None"
  by (simp add: has_key_def dict_get_def map_of_eq_None_iff)

lemma dict_get_Nil: "dict_get [] k = None"
  by (simp add: dict_get_def)

lemma dict_get_update: "dict_get (AList.update k v d) k' = (if k' = k then Some v else dict_get d k')"
  by (simp add: dict_get_def update_conv')

lemma dict_get_delete: "dict_get (AList.delete k d) k' = (if k' = k then None else dict_get d k')"
  by (simp add: dict_get_def delete_conv')

lemma dict_get_foldl_update:
  "dict_get (foldl (\<lambda>d kv. AList.update (fst kv) (snd kv) d) a b) k =
     (case dict_get (rev b) k of Some v \<Rightarrow> Some v | None \<Rightarrow> dict_get a k)"
proof (induction b arbitrary: a)
  case Nil
  then show ?case by (simp add: dict_get_def)
next
  case (Cons kv b)
  have "dict_get (rev (kv # b)) k =
          (case dict_get (rev b) k of Some v \<Rightarrow> Some v
           | None \<Rightarrow> if k = fst kv then Some (snd kv) else None)"
    by (cases kv) (simp add: dict_get_def map_add_def split: option.splits)
  then show ?case
    by (simp add: Cons.IH dict_get_update split: option.splits)
qed

lemma dict_get_merge:
  "dict_get (dict_merge a b) k =
     (case dict_get (rev b) k of Some v \<Rightarrow> Some v | None \<Rightarrow> dict_get a k)"
  by (simp add: dict_merge_def dict_get_foldl_update)

lemma foldl_promote_promoted:
  "dict_get (e_promoted (foldl (promote mc) en ks)) k =
     (if k \<in> set ks \<and> has_key mc k then dict_get mc k else dict_get (e_promoted en) k)"
proof (induction ks arbitrary: en)
  case Nil
  then show ?case by simp
next
  case (Cons a ks)
  show ?case
    by (simp add: Cons.IH) (auto simp add: promote_def dict_get_update has_key_iff)
qed

lemma foldl_promote_context:
  "dict_get (e_context (foldl (promote mc) en ks)) k =
     (if k \<in> set ks \<and> has_key mc k then None else dict_get (e_context en) k)"
proof (induction ks arbitrary: en)
  case Nil
  then show ?case by simp
next
  case (Cons a ks)
  show ?case
    by (simp add: Cons.IH) (auto simp add: promote_def dict_get_delete)
qed

lemma build_entry_promoted:
  "dict_get (e_promoted (build_entry lg stk now host lvl msg ex kw)) k =
     (if k \<in> set special_keys then dict_get (dict_merge (lg_context lg) kw) k else None)"
  by (cases ex)
     (auto simp add: build_entry_def Let_def foldl_promote_promoted has_key_iff dict_get_Nil)

lemma build_entry_context:
  "dict_get (e_context (build_entry lg stk now host lvl msg ex kw)) k =
     (if k \<in> set special_keys then None else dict_get (dict_merge (lg_context lg) kw) k)"
  by (cases ex)
     (auto simp add: build_entry_def Let_def foldl_promote_context has_key_iff)

lemma deepcopy_atom:
  "(\<And>a. v \<noteq> VRef a) \<Longrightarrow> deepcopy fuel v s = Some (v, s)"
  by (cases fuel; cases v) auto

lemma with_context_one_string:
  assumes "Logger_with_context fuel [(k, VStr u)] (lg, h) = Some (lg1, h1)"
  shows "dict_get (lg_context lg1) k = Some (VStr u)"
proof -
  have d: "\<And>s. deepcopy fuel (VStr u) s = Some (VStr u, s)"
    by (rule deepcopy_atom) simp
  from assms show ?thesis
    by (auto simp add: Logger_with_context_def d dict_get_update split: option.splits)
qed










lemma raises_on_underlying [simp]:
  "raises (on_underlying f s) = raises (f (ah_underlying (fst s), snd s))"
  by (simp add: on_underlying_def)
















lemma custom_raise_propagates:
  "raises (Logger_log env m lvl message exception kwargs
             (lg\<lparr>lg_handlers := [Sync (Custom \<lparr>cu_entries = es, cu_raises = True\<rparr>)]\<rparr>, w))
   \<longleftrightarrow> level_value (cfg_level (lg_config lg)) \<le> level_value lvl"
  by (simp add: Logger_log_def Let_def CustomHandler_emit_def)

lemma drop_emit_one:
  assumes "ah_on_full a = DROP" "\<not> ah_stop a"
  shows "AsyncHandler_emit env e (a, w)
         = Ok (if queue_full a then count_dropped a else enqueue (Some e) a, w)"
  using assms by (simp add: AsyncHandler_emit_def)

lemma drop_emit_each:
  assumes "ah_on_full a = DROP" "\<not> ah_stop a"
  shows "\<exists>a'. emit_each env es (a, w) = Ok (a', w)
          \<and> ah_queue a' = ah_queue a @ map Some (take (room a (length es)) es)
          \<and> ah_dropped_count a' = ah_dropped_count a + int (length es)
                - int (length (take (room a (length es)) es))
          \<and> ah_on_full a' = DROP \<and> \<not> ah_stop a' \<and> ah_maxsize a' = ah_maxsize a
          \<and> ah_underlying a' = ah_underlying a \<and> ah_batch a' = ah_batch a
          \<and> ah_thread a' = ah_thread a"
  using assms
proof (induction es arbitrary: a)
  case Nil
  then show ?case by (simp add: emit_each_def)
next
  case (Cons e es)
  let ?a1 = "if queue_full a then count_dropped a else enqueue (Some e) a"
  have one: "AsyncHandler_emit env e (a, w) = Ok (?a1, w)"
    by (rule drop_emit_one[OF Cons.prems])
  have p1: "ah_on_full ?a1 = DROP" "\<not> ah_stop ?a1"
    using Cons.prems by (simp_all add: count_dropped_def enqueue_def)
  from Cons.IH[OF p1] obtain a' where a':
    "emit_each env es (?a1, w) = Ok (a', w)"
    "ah_queue a' = ah_queue ?a1 @ map Some (take (room ?a1 (length es)) es)"
    "ah_dropped_count a' = ah_dropped_count ?a1 + int (length es)
                - int (length (take (room ?a1 (length es)) es))"
    "ah_on_full a' = DROP" "\<not> ah_stop a'" "ah_maxsize a' = ah_maxsize ?a1"
    "ah_underlying a' = ah_underlying ?a1" "ah_batch a' = ah_batch ?a1"
    "ah_thread a' = ah_thread ?a1"
    by blast
  have run: "emit_each env (e # es) (a, w) = Ok (a', w)"
    using one a'(1) by (simp add: emit_each_def)
  show ?case
  proof (cases "queue_full a")
    case True
    then have r0: "room a (length (e # es)) = 0" "room (count_dropped a) (length es) = 0"
      by (simp_all add: room_def queue_full_def count_dropped_def)
    from True a' r0 run show ?thesis
      by (simp add: count_dropped_def)
  next
    case False
    then have r1: "room a (length (e # es)) = Suc (room (enqueue (Some e) a) (length es))"
      by (auto simp add: room_def queue_full_def enqueue_def)
    from False a' run show ?thesis
      unfolding r1 by (simp add: enqueue_def)
  qed
qed

lemma and_then_obs:
  "obs (state_of r) = c \<Longrightarrow> (\<And>s. obs (state_of (f s)) = obs s) \<Longrightarrow> obs (state_of (and_then r f)) = c"
  by (cases r) auto

lemma for_each_obs:
  "(\<And>x s. obs (state_of (body x s)) = obs s) \<Longrightarrow> obs (state_of (for_each body xs s)) = obs s"
proof (induction xs arbitrary: s)
  case Nil
  then show ?case by simp
next
  case (Cons x xs)
  have "obs (state_of (and_then (body x s) (for_each body xs))) = obs s"
    by (rule and_then_obs[where obs = obs]) (simp_all add: Cons)
  then show ?case by simp
qed

lemma stop_on_underlying: "stop_of (state_of (on_underlying f s)) = stop_of s"
  by (simp add: on_underlying_def)

lemma stop_flush_one: "stop_of (state_of (flush_one env e s)) = stop_of s"
  using stop_on_underlying[of "Sink_emit env e" s]
  by (cases "on_underlying (Sink_emit env e) s") (simp_all add: flush_one_def)

lemma stop_flush_batch: "stop_of (state_of (AsyncHandler_flush_batch env b s)) = stop_of s"
  unfolding AsyncHandler_flush_batch_def
  by (rule for_each_obs) (rule stop_flush_one)

lemma stop_after_get: "stop_of (state_of (after_get env el s)) = stop_of s"
proof -
  have "stop_of (state_of (and_then (AsyncHandler_flush_batch env b s)
          (\<lambda>s1. Ok ((fst s1)\<lparr>ah_batch := [], ah_thread := AtLoopTest\<rparr>, snd s1)))) = stop_of s"
    for b
    by (rule and_then_obs[where obs = stop_of]) (simp_all add: stop_flush_batch)
  then show ?thesis by (simp add: after_get_def Let_def)
qed

lemma stop_consumer_step: "stop_of (state_of (consumer_step env el s)) = stop_of s"
proof (cases "ah_thread (fst s)")
  case AtLoopTest
  then show ?thesis by (simp add: consumer_step_def)
next
  case InGet
  show ?thesis
  proof (cases "ah_queue (fst s)")
    case Nil
    with InGet show ?thesis by (simp add: consumer_step_def stop_after_get)
  next
    case (Cons x q)
    show ?thesis
    proof (cases x)
      case None
      have "stop_of (state_of (and_then
                 (if ah_batch (fst s) \<noteq> []
                  then AsyncHandler_flush_batch env (ah_batch (fst s))
                         ((fst s)\<lparr>ah_queue := q\<rparr>, snd s)
                  else Ok ((fst s)\<lparr>ah_queue := q\<rparr>, snd s))
                 (\<lambda>s1. Ok ((fst s1)\<lparr>ah_thread := Exited\<rparr>, snd s1)))) = stop_of s"
        by (rule and_then_obs[where obs = stop_of]) (simp_all add: stop_flush_batch)
      with InGet Cons None show ?thesis by (simp add: consumer_step_def)
    next
      case (Some e)
      with InGet Cons show ?thesis by (simp add: consumer_step_def stop_after_get)
    qed
  qed
next
  case Exited
  then show ?thesis by (simp add: consumer_step_def)
qed

lemma stop_consumer_run: "stop_of (state_of (consumer_run env sched s)) = stop_of s"
  unfolding consumer_run_def
  by (rule for_each_obs) (rule stop_consumer_step)

lemma stop_poll_queue: "stop_of (state_of (poll_queue env sched s)) = stop_of s"
proof (induction sched arbitrary: s)
  case Nil
  then show ?case by simp
next
  case (Cons b bs)
  have "stop_of (state_of (and_then (consumer_step env b s) (poll_queue env bs))) = stop_of s"
    by (rule and_then_obs[where obs = stop_of]) (simp_all add: stop_consumer_step Cons)
  then show ?case by simp
qed

lemma stop_flush: "stop_of (state_of (AsyncHandler_flush env sched s)) = stop_of s"
  unfolding AsyncHandler_flush_def
  by (rule and_then_obs[where obs = stop_of]) (simp_all add: stop_poll_queue stop_on_underlying)

lemma stop_close: "stop_of (state_of (AsyncHandler_close env sched s))"
  unfolding AsyncHandler_close_def Let_def
  apply (rule and_then_obs[where c = True and obs = stop_of, simplified])
   apply (simp add: stop_consumer_run enqueue_def)
  apply (rule and_then_obs[where obs = stop_of])
   apply (simp add: stop_on_underlying)
  apply (rule and_then_obs[where obs = stop_of])
   apply (simp add: stop_on_underlying)
  apply simp
  done

lemma stop_emit: "stop_of s \<Longrightarrow> AsyncHandler_emit env e s = Ok s"
  by (simp add: AsyncHandler_emit_def)

lemma stop_async_call: "stop_of s \<Longrightarrow> stop_of (state_of (perform env c s))"
  by (cases c) (simp_all add: stop_emit stop_flush stop_close stop_consumer_step)

lemma stop_run_calls: "stop_of s \<Longrightarrow> stop_of (run_calls env cs s)"
  by (induction cs arbitrary: s) (simp_all add: stop_async_call)

lemma block_handler_eq:
  "block_handler =
     (\<lparr>ah_underlying = File \<lparr>fh_file_path = ''app.log'',
                                 fh_file = Some \<lparr>f_path = ''app.log'', f_closed = False\<rparr>\<rparr>,
       ah_queue = [], ah_maxsize = 10, ah_on_full = BLOCK, ah_batch_size = 100, ah_stop = False,
       ah_dropped_count = 0, ah_batch = [], ah_thread = AtLoopTest\<rparr>,
      demo_world\<lparr>w_files := [''app.log'' \<mapsto> []]\<rparr>)"
  by (simp add: block_handler_def FileHandler_init_def fs_mkdir_parents_def fs_open_append_def
      sys_call_def AsyncHandler_init_def demo_world_def)

lemma pending_eq:
  "pending =
     (\<lparr>ah_underlying = File \<lparr>fh_file_path = ''app.log'',
                                 fh_file = Some \<lparr>f_path = ''app.log'', f_closed = False\<rparr>\<rparr>,
       ah_queue = [Some (demo_record ''first''), Some (demo_record ''second'')],
       ah_maxsize = 10, ah_on_full = BLOCK, ah_batch_size = 100, ah_stop = False,
       ah_dropped_count = 0, ah_batch = [], ah_thread = InGet\<rparr>,
      demo_world\<lparr>w_files := [''app.log'' \<mapsto> []]\<rparr>)"
  by (simp add: pending_def block_handler_eq consumer_step_def AsyncHandler_emit_def
      queue_full_def enqueue_def)

lemma consumer_run_exited:
  "ah_thread (fst s) = Exited \<Longrightarrow> consumer_run env sched s = Ok s"
  by (induction sched) (simp_all add: consumer_run_def consumer_step_def)

lemma consumer_run_Cons:
  "consumer_run env (b # bs) s = and_then (consumer_step env b s) (consumer_run env bs)"
  by (simp add: consumer_run_def[abs_def])

lemma close_after_pending:
  "ah_on_full (fst pending) = BLOCK
   \<and> ah_queue (fst pending) = [Some (demo_record ''first''), Some (demo_record ''second'')]
   \<and> w_files (snd pending) ''app.log'' = Some []
   \<and> w_files (snd (state_of (AsyncHandler_close demo_env schedule pending))) ''app.log''
       = Some (if schedule \<noteq> [] \<and> hd schedule then ''first'' @ [CHR 0x0A] else [])
   \<and> (2 \<le> length schedule \<longrightarrow>
        ah_thread (fst (state_of (AsyncHandler_close demo_env schedule pending))) = Exited
      \<and> ah_queue (fst (state_of (AsyncHandler_close demo_env schedule pending)))
          = [Some (demo_record ''second''), None])"
proof -
  let ?closing = "((fst pending)\<lparr>ah_stop := True,
                     ah_queue := [Some (demo_record ''first''), Some (demo_record ''second''), None]\<rparr>,
                   snd pending)"
  have c0: "AsyncHandler_close demo_env sch pending =
      and_then (consumer_run demo_env sch ?closing)
           (\<lambda>s3. and_then
              (on_underlying Sink_flush
                 (if ah_thread (fst s3) \<noteq> Exited
                  then (fst s3, print_stderr
                          ''AsyncHandler: Worker thread did not terminate in time'' (snd s3))
                  else s3))
              (\<lambda>s4. and_then (on_underlying Sink_close s4)
                 (\<lambda>s5. Ok (if ah_dropped_count (fst s5) > 0
                            then (fst s5, print_stderr ''AsyncHandler: Dropped log entries''
                                            (snd s5))
                            else s5))))" for sch
    by (simp add: AsyncHandler_close_def Let_def pending_eq queue_full_def enqueue_def)
  show ?thesis
  proof (cases schedule)
    case Nil
    show ?thesis
      unfolding Nil c0
      by (simp add: pending_eq consumer_run_def on_underlying_def FileHandler_flush_def
          FileHandler_close_def is_open_def file_flush_def file_close_def sys_call_def
          print_stderr_def demo_world_def mark_closed_def)
  next
    case (Cons b bs)
    note outer = Cons
    show ?thesis
    proof (cases bs)
      case Nil
      show ?thesis
        unfolding outer Nil c0
        by (cases b)
           (simp_all add: pending_eq consumer_run_def consumer_step_def after_get_def Let_def
            AsyncHandler_flush_batch_def flush_one_def FileHandler_emit_def
            on_underlying_def FileHandler_flush_def demo_env_def demo_record_def
            FileHandler_close_def is_open_def file_flush_def file_close_def file_write_def
            sys_call_def print_stderr_def demo_world_def mark_closed_def)
    next
      case (Cons b' bs')
      have two: "consumer_run demo_env (b # b' # bs') ?closing
                 = consumer_run demo_env bs'
                     (state_of (consumer_run demo_env [b, b'] ?closing))"
        by (cases b)
           (simp_all add: consumer_run_def pending_eq consumer_step_def after_get_def Let_def
            AsyncHandler_flush_batch_def flush_one_def FileHandler_emit_def
            on_underlying_def FileHandler_flush_def demo_env_def demo_record_def
            FileHandler_close_def is_open_def file_flush_def file_close_def file_write_def
            sys_call_def print_stderr_def demo_world_def mark_closed_def)
      have ex: "ah_thread (fst (state_of (consumer_run demo_env [b, b'] ?closing))) = Exited"
        by (cases b)
           (simp_all add: consumer_run_def pending_eq consumer_step_def after_get_def Let_def
            AsyncHandler_flush_batch_def flush_one_def FileHandler_emit_def
            on_underlying_def FileHandler_flush_def demo_env_def demo_record_def
            FileHandler_close_def is_open_def file_flush_def file_close_def file_write_def
            sys_call_def print_stderr_def demo_world_def mark_closed_def)
      have run: "consumer_run demo_env (b # b' # bs') ?closing
                 = Ok (state_of (consumer_run demo_env [b, b'] ?closing))"
        unfolding two by (rule consumer_run_exited[OF ex])
      show ?thesis
        unfolding outer Cons c0 run
        by (cases b)
           (simp_all add: consumer_run_def pending_eq consumer_step_def after_get_def Let_def
            AsyncHandler_flush_batch_def flush_one_def FileHandler_emit_def
            on_underlying_def FileHandler_flush_def demo_env_def demo_record_def
            FileHandler_close_def is_open_def file_flush_def file_close_def file_write_def
            sys_call_def print_stderr_def demo_world_def mark_closed_def)
    qed
  qed
qed

lemma small_rotating_eq:
  "small_rotating =
     (\<lparr>rh_file_path = ''app.log'', rh_max_bytes = 10, rh_backup_count = 0,
       rh_file = Some \<lparr>f_path = ''app.log'', f_closed = False\<rparr>, rh_current_size = 8\<rparr>,
      demo_world\<lparr>w_files := [''app.log'' \<mapsto> ''12345678'']\<rparr>)"
  by (simp add: small_rotating_def RotatingFileHandler_init_def RotatingFileHandler_open_def
      fs_mkdir_parents_def fs_open_append_def sys_call_def fs_exists_def fs_size_def Let_def
      demo_world_def)

lemma str_nat_1: "str_nat (Suc 0) = ''1''"
  by (simp add: str_nat.simps)

text \<open>In general: with no backups asked for, a rotation in a world without I/O failures
  leaves the old content of the primary file at path.1.\<close>

lemma rotate_zero_backups:
  assumes "rh_backup_count h \<le> 1" "w_faults w = []" "w_files w (rh_file_path h) = Some old"
    "rh_file_path h \<noteq> backup_path (rh_file_path h) 1"
  shows "\<exists>h' w'. RotatingFileHandler_do_rotate (h, w) = Ok (h', w')
           \<and> w_files w' (backup_path (rh_file_path h) 1) = Some old
           \<and> w_files w' (rh_file_path h) = Some []
           \<and> rh_current_size h' = 0 \<and> is_open (rh_file h')"
  using assms
  by (simp add: RotatingFileHandler_do_rotate_def Let_def is_open_def
      mark_closed_def file_close_def backup_range_def retire_def fs_exists_def fs_unlink_def
      fs_rename_def fs_open_append_def sys_call_def)

lemma emit_each_stopped: "ah_stop (fst s) \<Longrightarrow> emit_each env es s = Ok s"
  by (induction es) (simp_all add: emit_each_def AsyncHandler_emit_def)

section \<open>Deep copies: soundness, termination, views\<close>

lemma ren_mono:
  "covered m v \<Longrightarrow> map_of m \<subseteq>\<^sub>m map_of m' \<Longrightarrow> ren m' v = ren m v \<and> covered m' v"
  by (cases v) (auto simp add: map_le_def dom_def)

lemma map_ren_mono:
  "\<forall>v \<in> set xs. covered m v \<Longrightarrow> map_of m \<subseteq>\<^sub>m map_of m' \<Longrightarrow> map (ren m') xs = map (ren m) xs"
  by (induction xs) (simp_all add: ren_mono)

lemma items_of_with_items:
  "length ys = length (items_of x) \<Longrightarrow> items_of (with_items x ys) = ys"
  by (cases x) simp_all

lemma items_of_with_items_Nil [simp]: "items_of (with_items x []) = []"
  by (cases x) simp_all

lemma complete_mono:
  assumes "complete h0 m h a a'" "map_of m \<subseteq>\<^sub>m map_of m'" "h' ! a' = h ! a'"
  shows "complete h0 m' h' a a'"
proof -
  have c: "\<forall>v \<in> set (items_of (h0 ! a)). covered m v"
    using assms(1) by (simp add: complete_def)
  have eq: "map (ren m') (items_of (h0 ! a)) = map (ren m) (items_of (h0 ! a))"
    by (rule map_ren_mono[OF c assms(2)])
  have c': "\<forall>v \<in> set (items_of (h0 ! a)). covered m' v"
    using c ren_mono[OF _ assms(2)] by blast
  have "h ! a' = with_items (h0 ! a) (map (ren m) (items_of (h0 ! a)))"
    using assms(1) by (simp add: complete_def)
  then show ?thesis
    unfolding complete_def eq using assms(3) c' by simp
qed

lemma copy_items_length:
  "copy_items cp xs s = Some (ys, s') \<Longrightarrow> length ys = length xs"
  by (induction xs arbitrary: s ys s') (auto split: option.splits prod.splits)

lemma copy_items_sound:
  assumes cp: "copier_sound h0 cp"
    and "copy_inv h0 unfinished s" and "\<forall>x \<in> set xs. val_in (length h0) x"
    and "copy_items cp xs s = Some (ys, s')"
  shows "copy_inv h0 unfinished s' \<and> map_of (fst s) \<subseteq>\<^sub>m map_of (fst s')
       \<and> take (length (snd s)) (snd s') = snd s
       \<and> (\<forall>x \<in> set xs. covered (fst s') x) \<and> ys = map (ren (fst s')) xs"
  using assms(2-4)
proof (induction xs arbitrary: s ys)
  case Nil
  then show ?case by simp
next
  case (Cons x xs)
  from Cons.prems(3) obtain x' s1 ys' where
    one: "cp x s = Some (x', s1)" and more: "copy_items cp xs s1 = Some (ys', s')"
    and ys: "ys = x' # ys'"
    by (auto split: option.splits prod.splits)
  have post: "copy_post h0 unfinished s x (x', s1)"
    using cp Cons.prems(1,2) one unfolding copier_sound_def by (metis list.set_intros(1))
  then have i1: "copy_inv h0 unfinished s1" and le1: "map_of (fst s) \<subseteq>\<^sub>m map_of (fst s1)"
    and tk1: "take (length (snd s)) (snd s1) = snd s" and cv: "covered (fst s1) x"
    and x': "x' = ren (fst s1) x"
    by (simp_all add: copy_post_def)
  have rest: "\<forall>x \<in> set xs. val_in (length h0) x" using Cons.prems(2) by simp
  note ih = Cons.IH[OF i1 rest more]
  have le2: "map_of (fst s1) \<subseteq>\<^sub>m map_of (fst s')" using ih by simp
  have len: "length (snd s) \<le> length (snd s1)"
    using arg_cong[OF tk1, of length] by simp
  have "take (length (snd s)) (snd s') = take (length (snd s)) (take (length (snd s1)) (snd s'))"
    using len by (simp add: min_def)
  also have "\<dots> = snd s" using ih tk1 by simp
  finally have tk: "take (length (snd s)) (snd s') = snd s" .
  show ?case
    using ih ys x' tk ren_mono[OF cv le2] map_le_trans[OF le1 le2] by simp
qed

lemma copy_inv_alloc:
  assumes inv: "copy_inv h0 P (m, h)" and a: "a < length h0" and fresh: "map_of m a = None"
  shows "copy_inv h0 (insert a P) ((a, length h) # m, h @ [with_items x []])"
proof -
  from inv have len: "length h0 \<le> length h" and tk: "take (length h0) h = h0"
    and rng: "\<And>c c'. map_of m c = Some c' \<Longrightarrow> c < length h0 \<and> length h0 \<le> c' \<and> c' < length h"
    and inj: "\<And>c d c'. map_of m c = Some c' \<Longrightarrow> map_of m d = Some c' \<Longrightarrow> c = d"
    and cmp: "\<And>c c'. map_of m c = Some c' \<Longrightarrow> c \<notin> P \<Longrightarrow> complete h0 m h c c'"
    and cls: "\<And>b v. length h0 \<le> b \<Longrightarrow> b < length h \<Longrightarrow> v \<in> set (items_of (h ! b))
                \<Longrightarrow> new_val (length h0) (length h) v"
    unfolding copy_inv_def by auto
  let ?m1 = "(a, length h) # m" and ?h1 = "h @ [with_items x []]"
  have le: "map_of m \<subseteq>\<^sub>m map_of ?m1"
    using fresh by (auto simp add: map_le_def dom_def)
  have 1: "length h0 \<le> length ?h1 \<and> take (length h0) ?h1 = h0"
    using len tk by simp
  have 2: "c < length h0 \<and> length h0 \<le> c' \<and> c' < length ?h1" if "map_of ?m1 c = Some c'" for c c'
    using that a len rng[of c c'] by (auto split: if_splits)
  have 3: "c = d" if "map_of ?m1 c = Some c'" "map_of ?m1 d = Some c'" for c d c'
    using that rng[of c c'] rng[of d c'] inj[of c c' d] by (auto split: if_splits)
  have 4: "complete h0 ?m1 ?h1 c c'" if "map_of ?m1 c = Some c'" "c \<notin> insert a P" for c c'
  proof -
    from that have mc: "map_of m c = Some c'" and cP: "c \<notin> P" by (auto split: if_splits)
    have "c' < length h" using rng[OF mc] by simp
    then have "?h1 ! c' = h ! c'" by (simp add: nth_append)
    then show ?thesis by (rule complete_mono[OF cmp[OF mc cP] le])
  qed
  have nv: "new_val lo hi v \<Longrightarrow> hi \<le> hi' \<Longrightarrow> new_val lo hi' v" for lo hi hi' v
    by (cases v) auto
  have 5: "new_val (length h0) (length ?h1) v"
    if "length h0 \<le> b" "b < length ?h1" "v \<in> set (items_of (?h1 ! b))" for b v
  proof (cases "b < length h")
    case True
    then have "?h1 ! b = h ! b" by (simp add: nth_append)
    with that True cls[of b v] show ?thesis by (auto intro: nv)
  next
    case False
    with that have "b = length h" by simp
    with that show ?thesis by simp
  qed
  show ?thesis
    unfolding copy_inv_def fst_conv snd_conv
    using 1 2 3 4 5 by blast
qed

lemma new_val_ren:
  assumes "covered m u" and "\<And>c c'. map_of m c = Some c' \<Longrightarrow> lo \<le> c' \<and> c' < hi"
  shows "new_val lo hi (ren m u)"
proof (cases u)
  case (VRef c)
  with assms(1) obtain c' where "map_of m c = Some c'" by auto
  with VRef assms(2)[of c c'] show ?thesis by simp
qed simp_all

lemma copy_inv_fill:
  assumes inv: "copy_inv h0 (insert a P) (m, h)" and ma: "map_of m a = Some a'"
    and ys: "ys = map (ren m) (items_of (h0 ! a))"
    and cov: "\<forall>v \<in> set (items_of (h0 ! a)). covered m v"
  shows "copy_inv h0 P (m, h[a' := with_items (h0 ! a) ys])"
proof -
  from inv have len: "length h0 \<le> length h" and tk: "take (length h0) h = h0"
    and rng: "\<And>c c'. map_of m c = Some c' \<Longrightarrow> c < length h0 \<and> length h0 \<le> c' \<and> c' < length h"
    and inj: "\<And>c d c'. map_of m c = Some c' \<Longrightarrow> map_of m d = Some c' \<Longrightarrow> c = d"
    and cmp: "\<And>c c'. map_of m c = Some c' \<Longrightarrow> c \<notin> insert a P \<Longrightarrow> complete h0 m h c c'"
    and cls: "\<And>b v. length h0 \<le> b \<Longrightarrow> b < length h \<Longrightarrow> v \<in> set (items_of (h ! b))
                \<Longrightarrow> new_val (length h0) (length h) v"
    unfolding copy_inv_def by auto
  let ?h = "h[a' := with_items (h0 ! a) ys]"
  have a': "length h0 \<le> a'" "a' < length h" using rng[OF ma] by simp_all
  have 1: "length h0 \<le> length ?h \<and> take (length h0) ?h = h0"
    using len tk a' by simp
  have 2: "c < length h0 \<and> length h0 \<le> c' \<and> c' < length ?h" if "map_of m c = Some c'" for c c'
    using rng[OF that] by simp
  have 4: "complete h0 m ?h c c'" if mc: "map_of m c = Some c'" and cP: "c \<notin> P" for c c'
  proof (cases "c = a")
    case True
    with mc ma have "c' = a'" by simp
    with True a' ys cov show ?thesis by (simp add: complete_def)
  next
    case False
    with inj[OF mc, of a] ma have "c' \<noteq> a'" by auto
    then have "?h ! c' = h ! c'" by simp
    then show ?thesis
      using cmp[OF mc] False cP by (simp add: complete_def)
  qed
  have 5: "new_val (length h0) (length ?h) v"
    if "length h0 \<le> b" "b < length ?h" "v \<in> set (items_of (?h ! b))" for b v
  proof (cases "b = a'")
    case True
    have "length ys = length (items_of (h0 ! a))" using ys by simp
    then have "items_of (?h ! b) = ys" using True a' by (simp add: items_of_with_items)
    with that obtain u where u: "u \<in> set (items_of (h0 ! a))" "v = ren m u"
      using ys by auto
    with cov have "covered m u" by simp
    then have "new_val (length h0) (length h) (ren m u)"
      by (rule new_val_ren) (use rng in blast)
    with u show ?thesis by simp
  next
    case False
    with that cls[of b v] show ?thesis by simp
  qed
  show ?thesis
    unfolding copy_inv_def fst_conv snd_conv
    using 1 2 inj 4 5 by blast
qed

lemma copy_object_sound:
  assumes wf: "heap_wf h0" and cp: "copier_sound h0 cp"
    and inv: "copy_inv h0 P s" and a: "a < length h0"
    and run: "copy_object cp a s = Some r"
  shows "copy_post h0 P s (VRef a) r"
proof (cases "map_of (fst s) a")
  case (Some a')
  with run have "r = (VRef a', s)" by (simp add: copy_object_def)
  with Some inv show ?thesis by (simp add: copy_post_def)
next
  case None
  obtain m h where s: "s = (m, h)" by (cases s)
  from inv s have len: "length h0 \<le> length h" and tk: "take (length h0) h = h0"
    by (simp_all add: copy_inv_def)
  have ah: "a < length h" using a len by simp
  have x: "h ! a = h0 ! a"
    using tk a by (metis nth_take)
  let ?x = "h0 ! a"
  let ?m1 = "(a, length h) # m" and ?h1 = "h @ [with_items ?x []]"
  from run None s ah x obtain ys m2 h2 where
    ci: "copy_items cp (items_of ?x) (?m1, ?h1) = Some (ys, m2, h2)"
    and r: "r = (VRef (length h), m2, h2[length h := with_items ?x ys])"
    by (auto simp add: copy_object_def Let_def split: option.splits)
  have inv1: "copy_inv h0 (insert a P) (?m1, ?h1)"
    using copy_inv_alloc[OF inv[unfolded s] a] None s by simp
  have items: "\<forall>v \<in> set (items_of ?x). val_in (length h0) v"
    using wf nth_mem[OF a] unfolding heap_wf_def by blast
  from copy_items_sound[OF cp inv1 items ci]
  have inv2: "copy_inv h0 (insert a P) (m2, h2)" and le12: "map_of ?m1 \<subseteq>\<^sub>m map_of m2"
    and tk12: "take (length ?h1) h2 = ?h1"
    and cov: "\<forall>v \<in> set (items_of ?x). covered m2 v" and ys: "ys = map (ren m2) (items_of ?x)"
    by simp_all
  have m2a: "map_of m2 a = Some (length h)"
    using le12 by (auto simp add: map_le_def dom_def split: if_splits)
  have le: "map_of m \<subseteq>\<^sub>m map_of m2"
  proof -
    have "map_of m \<subseteq>\<^sub>m map_of ?m1" using None s by (auto simp add: map_le_def dom_def)
    then show ?thesis using le12 by (rule map_le_trans)
  qed
  have inv3: "copy_inv h0 P (m2, h2[length h := with_items ?x ys])"
    by (rule copy_inv_fill[OF inv2 m2a ys cov])
  have "take (length h) h2 = take (length h) (take (length ?h1) h2)"
    by (simp add: min_def)
  also have "\<dots> = h" using tk12 by simp
  finally have tk2: "take (length h) (h2[length h := with_items ?x ys]) = h" by simp
  show ?thesis
    unfolding copy_post_def r s using inv3 le tk2 m2a by simp
qed

lemma deepcopy_sound:
  assumes wf: "heap_wf h0"
  shows "copier_sound h0 (deepcopy n)"
proof (induction n)
  case 0
  have none: "copier_sound h0 (\<lambda>x t. None)" by (simp add: copier_sound_def)
  show ?case
    unfolding copier_sound_def
  proof (intro allI impI)
    fix P s v r
    assume inv: "copy_inv h0 P s" and v: "val_in (length h0) v" and run: "deepcopy 0 v s = Some r"
    show "copy_post h0 P s v r"
    proof (cases v)
      case (VRef a)
      with v run copy_object_sound[OF wf none inv, of a r] show ?thesis by simp
    qed (use run inv in \<open>auto simp add: copy_post_def\<close>)
  qed
next
  case (Suc n)
  show ?case
    unfolding copier_sound_def
  proof (intro allI impI)
    fix P s v r
    assume inv: "copy_inv h0 P s" and v: "val_in (length h0) v"
      and run: "deepcopy (Suc n) v s = Some r"
    show "copy_post h0 P s v r"
    proof (cases v)
      case (VRef a)
      with v run copy_object_sound[OF wf Suc inv, of a r] show ?thesis by simp
    qed (use run inv in \<open>auto simp add: copy_post_def\<close>)
  qed
qed

lemma memo_dom:
  assumes "copy_inv h0 P s"
  shows "dom (map_of (fst s)) \<subseteq> {..< length h0}"
  using assms unfolding copy_inv_def by (auto simp add: dom_def)

lemma unmemoized_mono:
  assumes "copy_inv h0 P s'" and "map_of (fst s) \<subseteq>\<^sub>m map_of (fst s')"
  shows "unmemoized h0 s' \<le> unmemoized h0 s"
proof -
  have "dom (map_of (fst s)) \<subseteq> dom (map_of (fst s'))"
    using assms(2) by (rule map_le_implies_dom_le)
  then have "card (dom (map_of (fst s))) \<le> card (dom (map_of (fst s')))"
    by (intro card_mono finite_dom_map_of)
  then show ?thesis by (simp add: unmemoized_def)
qed

lemma unmemoized_alloc:
  assumes inv: "copy_inv h0 P (m, h)" and a: "a < length h0" and fresh: "map_of m a = None"
  shows "Suc (unmemoized h0 ((a, a') # m, h')) = unmemoized h0 (m, h)"
proof -
  have fin: "finite (dom (map_of m))" by (rule finite_dom_map_of)
  have sub: "insert a (dom (map_of m)) \<subseteq> {..< length h0}"
    using memo_dom[OF inv] a by simp
  have notin: "a \<notin> dom (map_of m)" using fresh by (simp add: dom_def)
  have "card (insert a (dom (map_of m))) \<le> card {..< length h0}"
    by (rule card_mono[OF _ sub]) simp
  then have "Suc (card (dom (map_of m))) \<le> length h0"
    using fin notin by simp
  moreover have "dom (map_of ((a, a') # m)) = insert a (dom (map_of m))"
    by (auto simp add: dom_def)
  ultimately show ?thesis
    using fin notin by (simp add: unmemoized_def)
qed

lemma copy_items_total:
  assumes cp: "copier_sound h0 cp" and tot: "copier_total h0 n cp"
    and "copy_inv h0 P s" and "\<forall>x \<in> set xs. val_in (length h0) x" and "unmemoized h0 s \<le> n"
  shows "copy_items cp xs s \<noteq> None"
  using assms(3-5)
proof (induction xs arbitrary: s)
  case Nil
  then show ?case by simp
next
  case (Cons x xs)
  have vx: "val_in (length h0) x" using Cons.prems(2) by simp
  obtain x' s1 where one: "cp x s = Some (x', s1)"
    using tot Cons.prems(1,3) vx unfolding copier_total_def
    by (metis option.exhaust surj_pair)
  have post: "copy_post h0 P s x (x', s1)"
    using cp Cons.prems(1) vx one unfolding copier_sound_def by blast
  then have i1: "copy_inv h0 P s1" and le1: "map_of (fst s) \<subseteq>\<^sub>m map_of (fst s1)"
    by (simp_all add: copy_post_def)
  have "unmemoized h0 s1 \<le> n"
    using unmemoized_mono[OF i1 le1] Cons.prems(3) by simp
  from Cons.IH[OF i1 _ this] Cons.prems(2) have "copy_items cp xs s1 \<noteq> None" by simp
  with one show ?case by (auto split: option.splits)
qed

lemma copy_object_total:
  assumes wf: "heap_wf h0" and cp: "copier_sound h0 cp" and tot: "copier_total h0 n cp"
    and inv: "copy_inv h0 P s" and a: "a < length h0" and fuel: "unmemoized h0 s \<le> Suc n"
  shows "copy_object cp a s \<noteq> None"
proof (cases "map_of (fst s) a")
  case (Some a')
  then show ?thesis by (simp add: copy_object_def)
next
  case None
  obtain m h where s: "s = (m, h)" by (cases s)
  from inv s have len: "length h0 \<le> length h" and tk: "take (length h0) h = h0"
    by (simp_all add: copy_inv_def)
  have ah: "a < length h" using a len by simp
  have x: "h ! a = h0 ! a" using tk a by (metis nth_take)
  let ?x = "h0 ! a"
  let ?m1 = "(a, length h) # m" and ?h1 = "h @ [with_items ?x []]"
  have fresh: "map_of m a = None" using None s by simp
  have inv1: "copy_inv h0 (insert a P) (?m1, ?h1)"
    by (rule copy_inv_alloc[OF inv[unfolded s] a fresh])
  have items: "\<forall>v \<in> set (items_of ?x). val_in (length h0) v"
    using wf nth_mem[OF a] unfolding heap_wf_def by blast
  have "unmemoized h0 (?m1, ?h1) \<le> n"
    using unmemoized_alloc[OF inv[unfolded s] a fresh, of "length h" ?h1] fuel s by simp
  from copy_items_total[OF cp tot inv1 items this]
  obtain r where "copy_items cp (items_of ?x) (?m1, ?h1) = Some r" by auto
  then show ?thesis
    using None s ah x by (cases r) (simp add: copy_object_def Let_def)
qed

lemma deepcopy_total:
  assumes wf: "heap_wf h0"
  shows "copier_total h0 n (deepcopy n)"
proof (induction n)
  case 0
  show ?case
    unfolding copier_total_def
  proof (intro allI impI)
    fix P s v
    assume inv: "copy_inv h0 P s" and v: "val_in (length h0) v" and z: "unmemoized h0 s \<le> 0"
    show "deepcopy 0 v s \<noteq> None"
    proof (cases v)
      case (VRef a)
      have sub: "dom (map_of (fst s)) \<subseteq> {..< length h0}" by (rule memo_dom[OF inv])
      have "card {..< length h0} \<le> card (dom (map_of (fst s)))"
        using z by (simp add: unmemoized_def)
      with sub have "dom (map_of (fst s)) = {..< length h0}"
        by (intro card_seteq) simp_all
      with v VRef have "a \<in> dom (map_of (fst s))" by simp
      then obtain a' where "map_of (fst s) a = Some a'" by auto
      with VRef show ?thesis by (simp add: copy_object_def)
    qed simp_all
  qed
next
  case (Suc n)
  show ?case
    unfolding copier_total_def
  proof (intro allI impI)
    fix P s v
    assume inv: "copy_inv h0 P s" and v: "val_in (length h0) v"
      and f: "unmemoized h0 s \<le> Suc n"
    show "deepcopy (Suc n) v s \<noteq> None"
    proof (cases v)
      case (VRef a)
      with v copy_object_total[OF wf deepcopy_sound[OF wf] Suc inv _ f, of a]
      show ?thesis by simp
    qed simp_all
  qed
qed

lemma copier_total_mono: "copier_total h0 n cp \<Longrightarrow> k \<le> n \<Longrightarrow> copier_total h0 k cp"
  unfolding copier_total_def by (meson le_trans)

lemma zip_fst_map_snd:
  "zip (map fst kvs) (map (f \<circ> snd) kvs) = map (\<lambda>kv. (fst kv, f (snd kv))) kvs"
  by (induction kvs) simp_all

lemma view_copy:
  assumes wf: "heap_wf h0" and inv: "copy_inv h0 {} (m, h)"
  shows "val_in (length h0) v \<Longrightarrow> covered m v \<Longrightarrow> view_of d h (ren m v) = view_of d h0 v"
proof (induction d arbitrary: v)
  case 0
  then show ?case by (cases v) simp_all
next
  case (Suc d)
  show ?case
  proof (cases v)
    case (VRef a)
    with Suc.prems obtain a' where ma: "map_of m a = Some a'" and a: "a < length h0" by auto
    from inv ma have a': "a' < length h" and cmp: "complete h0 m h a a'"
      unfolding copy_inv_def by auto
    have items: "\<forall>x \<in> set (items_of (h0 ! a)). val_in (length h0) x"
      using wf nth_mem[OF a] unfolding heap_wf_def by blast
    from cmp have obj: "h ! a' = with_items (h0 ! a) (map (ren m) (items_of (h0 ! a)))"
      and cov: "\<forall>x \<in> set (items_of (h0 ! a)). covered m x"
      by (simp_all add: complete_def)
    have ih: "view_of d h (ren m x) = view_of d h0 x" if "x \<in> set (items_of (h0 ! a))" for x
      using Suc.IH[of x] items cov that by simp
    show ?thesis
    proof (cases "h0 ! a")
      case (OList xs)
      with obj ih VRef ma a a' show ?thesis by simp
    next
      case (ODict kvs)
      with obj have "h ! a' = ODict (map (\<lambda>kv. (fst kv, ren m (snd kv))) kvs)"
        by (simp add: zip_fst_map_snd)
      with ODict ih VRef ma a a' show ?thesis by (simp add: comp_def)
    qed
  qed simp_all
qed

lemma new_val_mono: "new_val lo hi v \<Longrightarrow> hi \<le> hi' \<Longrightarrow> new_val lo hi' v"
  by (cases v) auto

lemma view_stable:
  assumes agree: "\<And>b. lo \<le> b \<Longrightarrow> b < hi \<Longrightarrow> b < length h \<and> b < length h' \<and> h' ! b = h ! b"
    and closed: "\<And>b x. lo \<le> b \<Longrightarrow> b < hi \<Longrightarrow> x \<in> set (items_of (h ! b)) \<Longrightarrow> new_val lo hi x"
  shows "new_val lo hi v \<Longrightarrow> view_of d h' v = view_of d h v"
proof (induction d arbitrary: v)
  case 0
  then show ?case by (cases v) simp_all
next
  case (Suc d)
  show ?case
  proof (cases v)
    case (VRef b)
    with Suc.prems have b: "lo \<le> b" "b < hi" by simp_all
    note ag = agree[OF b]
    have ih: "view_of d h' x = view_of d h x" if "x \<in> set (items_of (h ! b))" for x
      using Suc.IH[OF closed[OF b that]] .
    show ?thesis
    proof (cases "h ! b")
      case (OList xs)
      with ag ih VRef show ?thesis by simp
    next
      case (ODict kvs)
      with ag ih VRef show ?thesis by simp
    qed
  qed simp_all
qed

lemma copy_inv_start: "copy_inv h0 {} ([], h0)"
  by (simp add: copy_inv_def)

lemma copy_inv_forget: "copy_inv h0 P (m, h) \<Longrightarrow> copy_inv h0 {} ([], h)"
  by (simp add: copy_inv_def)

lemma looks_like_copy:
  assumes wf: "heap_wf h0" and inv: "copy_inv h0 {} (m, h)"
    and v: "val_in (length h0) v" and cv: "covered m v"
  shows "looks_like h0 h (ren m v) v"
proof -
  have "new_val (length h0) (length h) (ren m v)"
    by (rule new_val_ren[OF cv]) (use inv in \<open>auto simp add: copy_inv_def\<close>)
  then show ?thesis
    using view_copy[OF wf inv v cv] by (simp add: looks_like_def)
qed

lemma looks_like_stable:
  assumes inv: "copy_inv h0 P (m, h)" and len: "length h \<le> length h'"
    and agree: "\<And>b. length h0 \<le> b \<Longrightarrow> b < length h \<Longrightarrow> h' ! b = h ! b"
    and l: "looks_like h0 h v' v"
  shows "looks_like h0 h' v' v"
proof -
  from l have nv: "new_val (length h0) (length h) v'"
    and vw: "\<And>d. view_of d h v' = view_of d h0 v"
    by (simp_all add: looks_like_def)
  have "view_of d h' v' = view_of d h v'" for d
  proof (rule view_stable[OF _ _ nv])
    fix b assume "length h0 \<le> b" "b < length h"
    then show "b < length h \<and> b < length h' \<and> h' ! b = h ! b"
      using len agree by simp
  next
    fix b x assume "length h0 \<le> b" "b < length h" "x \<in> set (items_of (h ! b))"
    then show "new_val (length h0) (length h) x"
      using inv unfolding copy_inv_def by auto
  qed
  then show ?thesis
    using vw new_val_mono[OF nv len] by (simp add: looks_like_def)
qed

lemma dict_like_stable:
  assumes "copy_inv h0 P (m, h)" "length h \<le> length h'"
    "\<And>b. length h0 \<le> b \<Longrightarrow> b < length h \<Longrightarrow> h' ! b = h ! b"
    "dict_like h0 h c' c"
  shows "dict_like h0 h' c' c"
  using assms(4) looks_like_stable[OF assms(1-3)]
  unfolding dict_like_def by (auto elim!: list_all2_mono)

lemma dict_like_update:
  assumes "dict_like h0 h c' c" "looks_like h0 h v' v"
  shows "dict_like h0 h (AList.update k v' c') (AList.update k v c)"
  using assms unfolding dict_like_def
  by (induction c' c rule: list_all2_induct) auto

lemma nth_of_take: "take n xs = ys \<Longrightarrow> b < n \<Longrightarrow> b < length ys \<Longrightarrow> xs ! b = ys ! b"
  by (metis nth_take)

lemma take_take_le:
  assumes "take (length h) h1 = h" "take (length h1) h2 = h1"
  shows "take (length h) h2 = h"
proof -
  have len: "length h \<le> length h1" using arg_cong[OF assms(1), of length] by simp
  have "take (length h) h2 = take (length h) (take (length h1) h2)"
    using len by (simp add: min_def)
  then show ?thesis using assms by simp
qed

lemma unmemoized_start: "unmemoized h0 ([], h) = length h0"
  by (simp add: unmemoized_def)

lemma top_copy:
  assumes wf: "heap_wf h0" and base: "copy_inv h0 {} ([], h)"
    and v: "val_in (length h0) v" and fuel: "length h0 \<le> fuel"
  shows "\<exists>v' m' h'. deepcopy fuel v ([], h) = Some (v', m', h') \<and> copy_inv h0 {} (m', h')
           \<and> take (length h) h' = h \<and> looks_like h0 h' v' v"
proof -
  have "deepcopy fuel v ([], h) \<noteq> None"
    using deepcopy_total[OF wf, of fuel] base v fuel
    unfolding copier_total_def by (simp add: unmemoized_start)
  then obtain v' m' h' where run: "deepcopy fuel v ([], h) = Some (v', m', h')"
    by (metis option.exhaust surj_pair)
  have "copy_post h0 {} ([], h) v (v', m', h')"
    using deepcopy_sound[OF wf, of fuel] base v run unfolding copier_sound_def by blast
  then have inv: "copy_inv h0 {} (m', h')" and tk: "take (length h) h' = h"
    and cv: "covered m' v" and v': "v' = ren m' v"
    by (simp_all add: copy_post_def)
  show ?thesis
    using run inv tk looks_like_copy[OF wf inv v cv] v' by simp
qed

lemma top_copy_items:
  assumes wf: "heap_wf h0" and base: "copy_inv h0 {} ([], h)"
    and xs: "\<forall>x \<in> set xs. val_in (length h0) x" and fuel: "length h0 \<le> fuel"
  shows "\<exists>ys m' h'. copy_items (deepcopy fuel) xs ([], h) = Some (ys, m', h')
           \<and> copy_inv h0 {} (m', h') \<and> take (length h) h' = h
           \<and> list_all2 (looks_like h0 h') ys xs"
proof -
  have "copy_items (deepcopy fuel) xs ([], h) \<noteq> None"
    by (rule copy_items_total[OF deepcopy_sound[OF wf] deepcopy_total[OF wf] base xs])
       (simp add: unmemoized_start fuel)
  then obtain ys m' h' where run: "copy_items (deepcopy fuel) xs ([], h) = Some (ys, m', h')"
    by (metis option.exhaust surj_pair)
  from copy_items_sound[OF deepcopy_sound[OF wf] base xs run]
  have inv: "copy_inv h0 {} (m', h')" and tk: "take (length h) h' = h"
    and cv: "\<forall>x \<in> set xs. covered m' x" and ys: "ys = map (ren m') xs"
    by simp_all
  have "list_all2 (looks_like h0 h') (map (ren m') xs) xs"
    using xs cv looks_like_copy[OF wf inv]
    by (simp add: list_all2_conv_all_nth)
  with run inv tk ys show ?thesis by simp
qed

lemma store_copies_spec:
  assumes wf: "heap_wf h0" and fuel: "length h0 \<le> fuel"
  shows "copy_inv h0 {} ([], h) \<Longrightarrow> \<forall>v \<in> set (map snd kwargs). val_in (length h0) v
         \<Longrightarrow> dict_like h0 h c' c
         \<Longrightarrow> \<exists>cf hf. store_copies fuel kwargs (c', h) = Some (cf, hf)
               \<and> copy_inv h0 {} ([], hf) \<and> take (length h) hf = h
               \<and> dict_like h0 hf cf (dict_merge c kwargs)"
proof (induction kwargs arbitrary: h c' c)
  case Nil
  then show ?case by (simp add: dict_merge_def)
next
  case (Cons kv kwargs)
  from Cons.prems(2) have v: "val_in (length h0) (snd kv)"
    and rest: "\<forall>v \<in> set (map snd kwargs). val_in (length h0) v" by simp_all
  from top_copy[OF wf Cons.prems(1) v fuel] obtain v' m1 h1 where
    run: "deepcopy fuel (snd kv) ([], h) = Some (v', m1, h1)"
    and inv1: "copy_inv h0 {} (m1, h1)" and tk1: "take (length h) h1 = h"
    and ll: "looks_like h0 h1 v' (snd kv)"
    by blast
  have len: "length h \<le> length h1" using arg_cong[OF tk1, of length] by simp
  have agree: "h1 ! b = h ! b" if "b < length h" for b
    using nth_of_take[OF tk1 that that] .
  have dl: "dict_like h0 h1 c' c"
    by (rule dict_like_stable[OF Cons.prems(1) len _ Cons.prems(3)]) (rule agree)
  have dl1: "dict_like h0 h1 (AList.update (fst kv) v' c') (AList.update (fst kv) (snd kv) c)"
    by (rule dict_like_update[OF dl ll])
  from Cons.IH[OF copy_inv_forget[OF inv1] rest dl1] obtain cf hf where
    fin: "store_copies fuel kwargs (AList.update (fst kv) v' c', h1) = Some (cf, hf)"
    and invf: "copy_inv h0 {} ([], hf)" and tkf: "take (length h1) hf = h1"
    and dlf: "dict_like h0 hf cf (dict_merge (AList.update (fst kv) (snd kv) c) kwargs)"
    by blast
  have "store_copies fuel (kv # kwargs) (c', h) = Some (cf, hf)"
    using run fin by simp
  moreover have "take (length h) hf = h" by (rule take_take_le[OF tk1 tkf])
  moreover have "dict_merge (AList.update (fst kv) (snd kv) c) kwargs = dict_merge c (kv # kwargs)"
    by (simp add: dict_merge_def)
  ultimately show ?case using invf dlf by simp
qed

lemma val_in_new_val: "new_val 0 n v = val_in n v"
  by (cases v) simp_all

lemma old_view_stable:
  assumes wf: "heap_wf h" and tk: "take (length h) h' = h" and v: "val_in (length h) v"
  shows "view_of d h' v = view_of d h v"
proof (rule view_stable[where lo = 0 and hi = "length h"])
  fix b assume b: "b < length h"
  have "length h \<le> length h'" using arg_cong[OF tk, of length] by simp
  with b nth_of_take[OF tk b b] show "b < length h \<and> b < length h' \<and> h' ! b = h ! b" by simp
next
  fix b x assume "b < length h" "x \<in> set (items_of (h ! b))"
  then show "new_val 0 (length h) x"
    using wf unfolding heap_wf_def val_in_new_val by (meson nth_mem)
next
  show "new_val 0 (length h) v" using v by (simp add: val_in_new_val)
qed

section \<open>C1: level filtering\<close>



section \<open>C2: the source location of a record\<close>

text \<open>
  Claim C2 says that every record emitted to a handler has a non-empty file, a line number
  above 0 and a non-empty function name, however the call was made. The code has a
  fallback for a call with no frame three levels up the stack: when a public method is
  entered with no Python frame above it (a callback run by the interpreter itself, such as
  one registered with \<^verbatim>\<open>atexit\<close>), the record carries the line number 0.
\<close>

theorem line_zero_counterexample:
  "map (\<lambda>p. (e_file (snd p), e_line (snd p), e_function (snd p)))
     (w_emitted (snd (state_of (Logger_info demo_env (demo_moment []) ''bye'' []
        (demo_logger INFO [collector], demo_world)))))
   = [(''<unknown>'', 0, ''<unknown>'')]"
  by (simp add: Logger_info_def call_log_def has_key_def dict_get_def
      Logger_log_def demo_logger_def demo_config_def demo_world_def demo_moment_def
      get_hostname_def collector_def CustomHandler_emit_def build_entry_location capture_at_3 Let_def)

text \<open>
  Claim C2, amended. Every record that \<^verbatim>\<open>_log\<close> passes to a handler carries the three
  fields. When the method that called \<^verbatim>\<open>_log\<close> has a calling frame, they are the base name
  of that frame's file, its line number and its function name, hence non-empty, positive
  and non-empty whenever the frame's are; when it has none they are \<^verbatim>\<open><unknown>\<close>, 0 and
  \<^verbatim>\<open><unknown>\<close>.
\<close>

theorem source_location_of_every_record:
  "\<forall>p \<in> set (drop (length (w_emitted w))
               (w_emitted (snd (state_of (Logger_log env m lvl message exception kwargs (lg, w)))))).
     (case drop 1 (m_stack m) of
        [] \<Rightarrow> e_file (snd p) = ''<unknown>'' \<and> e_line (snd p) = 0
              \<and> e_function (snd p) = ''<unknown>''
      | f # _ \<Rightarrow> e_file (snd p) = basename (co_filename f) \<and> e_line (snd p) = f_lineno f
                \<and> e_function (snd p) = co_name f
                \<and> (basename (co_filename f) \<noteq> [] \<and> 0 < f_lineno f \<and> co_name f \<noteq> []
                     \<longrightarrow> e_file (snd p) \<noteq> [] \<and> 0 < e_line (snd p) \<and> e_function (snd p) \<noteq> []))"
proof -
  obtain k where k: "w_emitted (snd (state_of (Logger_log env m lvl message exception kwargs (lg, w))))
       = w_emitted w @ map (\<lambda>j. (j, build_entry lg (m_stack m) (m_now m)
                                   (fst (get_hostname (m_gethostname m) w)) lvl message
                                   exception kwargs)) [0 ..< k]"
    using Logger_log_trace by blast
  show ?thesis
    unfolding k
    by (auto simp add: build_entry_location capture_at_3 split: list.splits)
qed

theorem source_location_of_every_record_witness:
  "map (\<lambda>p. (e_file (snd p), e_line (snd p), e_function (snd p)))
     (w_emitted (snd (state_of (Logger_log demo_env (demo_moment [info_frame, demo_frame]) INFO
        ''hello'' None [] (demo_logger INFO [collector], demo_world)))))
   = [(''main.py'', 12, ''handle'')]"
  using source_location_of_every_record[of demo_world demo_env "demo_moment [info_frame, demo_frame]"
      INFO "''hello''" None "[]" "demo_logger INFO [collector]"]
  by (simp add: Logger_log_def demo_logger_def demo_config_def demo_world_def demo_moment_def
      get_hostname_def collector_def CustomHandler_emit_def demo_frame_def basename_def Let_def
      build_entry_location capture_at_3)

section \<open>C3: \<^verbatim>\<open>with_context\<close>\<close>

text \<open>
  Claim C3. For every logger and every map of pairs, in a store without dangling references,
  \<^verbatim>\<open>with_context(pairs)\<close> returns (the recursion bound being at least the size of the store)
  a new logger with the receiver's name, configuration and handlers, whose context has the
  keys of the receiver's context overlaid with the pairs, in that order, each value looking
  at every depth as the overlaid value looked before the call and made of newly allocated
  objects only. No object that existed before the call is changed, so the receiver's context
  reads as before. And whatever is later done to the objects that existed before the call
  (the caller's values among them), the new logger's context still reads as the overlaid
  context did at the time of the call.
\<close>

theorem with_context_copies:
  assumes wf: "heap_wf h"
    and ctx: "\<forall>v \<in> set (map snd (lg_context lg)). val_in (length h) v"
    and kw: "\<forall>v \<in> set (map snd kwargs). val_in (length h) v"
    and fuel: "length h \<le> fuel"
  shows "\<exists>child h'.
           Logger_with_context fuel kwargs (lg, h) = Some (child, h')
         \<and> lg_name child = lg_name lg \<and> lg_config child = lg_config lg
         \<and> lg_handlers child = lg_handlers lg
         \<and> list_all2 (\<lambda>p' p. fst p' = fst p \<and> new_val (length h) (length h') (snd p')
                                \<and> (\<forall>d. view_of d h' (snd p') = view_of d h (snd p)))
             (lg_context child) (dict_merge (lg_context lg) kwargs)
         \<and> take (length h) h' = h
         \<and> (\<forall>p \<in> set (lg_context lg). \<forall>d. view_of d h' (snd p) = view_of d h (snd p))
         \<and> (\<forall>h''. length h' \<le> length h''
                \<longrightarrow> (\<forall>b. length h \<le> b \<longrightarrow> b < length h' \<longrightarrow> h'' ! b = h' ! b)
                \<longrightarrow> list_all2 (\<lambda>p' p. fst p' = fst p
                                  \<and> (\<forall>d. view_of d h'' (snd p') = view_of d h (snd p)))
                      (lg_context child) (dict_merge (lg_context lg) kwargs))"
proof -
  let ?ctx = "lg_context lg"
  from top_copy_items[OF wf copy_inv_start ctx fuel] obtain vals m1 h1 where
    run1: "copy_items (deepcopy fuel) (map snd ?ctx) ([], h) = Some (vals, m1, h1)"
    and inv1: "copy_inv h {} (m1, h1)" and tk1: "take (length h) h1 = h"
    and l1: "list_all2 (looks_like h h1) vals (map snd ?ctx)"
    by blast
  have len1: "length vals = length ?ctx" using l1 by (simp add: list_all2_lengthD)
  have dl1: "dict_like h h1 (zip (map fst ?ctx) vals) ?ctx"
    using l1 len1 unfolding dict_like_def
    by (simp add: list_all2_conv_all_nth)
  from store_copies_spec[OF wf fuel copy_inv_forget[OF inv1] kw dl1] obtain cf hf where
    run2: "store_copies fuel kwargs (zip (map fst ?ctx) vals, h1) = Some (cf, hf)"
    and invf: "copy_inv h {} ([], hf)" and tkf: "take (length h1) hf = h1"
    and dlf: "dict_like h hf cf (dict_merge ?ctx kwargs)"
    by blast
  let ?child = "\<lparr>lg_name = lg_name lg, lg_config = lg_config lg, lg_context = cf,
                  lg_handlers = lg_handlers lg\<rparr>"
  have run: "Logger_with_context fuel kwargs (lg, h) = Some (?child, hf)"
    using run1 run2 by (simp add: Logger_with_context_def)
  have tk: "take (length h) hf = h" by (rule take_take_le[OF tk1 tkf])
  have a: "list_all2 (\<lambda>p' p. fst p' = fst p \<and> new_val (length h) (length hf) (snd p')
                                \<and> (\<forall>d. view_of d hf (snd p') = view_of d h (snd p)))
             cf (dict_merge ?ctx kwargs)"
    using dlf unfolding dict_like_def looks_like_def by simp
  have b: "\<forall>p \<in> set ?ctx. \<forall>d. view_of d hf (snd p) = view_of d h (snd p)"
    using old_view_stable[OF wf tk] ctx by simp
  have c: "list_all2 (\<lambda>p' p. fst p' = fst p
                                  \<and> (\<forall>d. view_of d h'' (snd p') = view_of d h (snd p)))
                      cf (dict_merge ?ctx kwargs)"
    if "length hf \<le> length h''" "\<And>b. length h \<le> b \<Longrightarrow> b < length hf \<Longrightarrow> h'' ! b = hf ! b"
    for h''
  proof -
    have "dict_like h h'' cf (dict_merge ?ctx kwargs)"
      by (rule dict_like_stable[OF invf that(1) that(2) dlf])
    then show ?thesis
      unfolding dict_like_def looks_like_def by (auto elim!: list_all2_mono)
  qed
  show ?thesis
    using run tk a b c by (intro exI[of _ ?child] exI[of _ hf]) simp
qed

theorem with_context_copies_witness:
  "\<exists>child h'.
      Logger_with_context 1 [(''tags'', VRef 0)] (demo_logger INFO [], loop_heap) = Some (child, h')
    \<and> lg_context child = [(''tags'', VRef 1)]
    \<and> h' = [OList [VInt 1, VRef 0], OList [VInt 1, VRef 1]]
    \<and> view_of 2 h' (VRef 1) = view_of 2 loop_heap (VRef 0)
    \<and> view_of 2 (h'[0 := OList [VInt 99]]) (VRef 1) = view_of 2 loop_heap (VRef 0)
    \<and> view_of 2 (h'[0 := OList [VInt 99]]) (VRef 0) \<noteq> view_of 2 loop_heap (VRef 0)"
proof -
  have wf: "heap_wf loop_heap" by (simp add: heap_wf_def loop_heap_def)
  have ctx: "\<forall>v \<in> set (map snd (lg_context (demo_logger INFO []))). val_in (length loop_heap) v"
    by (simp add: demo_logger_def)
  have kw: "\<forall>v \<in> set (map snd [(''tags'', VRef 0)]). val_in (length loop_heap) v"
    by (simp add: loop_heap_def)
  have fuel: "length loop_heap \<le> 1" by (simp add: loop_heap_def)
  have two: "(2::nat) = Suc (Suc 0)" by simp
  from with_context_copies[OF wf ctx kw fuel] show ?thesis
    by (simp add: Logger_with_context_def demo_logger_def loop_heap_def copy_object_def Let_def two)
qed

section \<open>C4: promotion of the reserved keys\<close>

text \<open>
  Claim C4. In the record built by a log call, the merged context is the receiver's context
  overlaid with the call's fields, a field winning over the context. Each of the four
  reserved keys (\<^verbatim>\<open>correlation_id\<close>, \<^verbatim>\<open>user_id\<close>, \<^verbatim>\<open>trace_id\<close>, \<^verbatim>\<open>span_id\<close>) that the
  merged context has is a top-level field of the record with the merged value and is absent
  from the nested context; every other key is in the nested context only. In particular,
  after \<^verbatim>\<open>with_context(user_id="u1").with_context(user_id="u2")\<close> a log call that passes no
  \<^verbatim>\<open>user_id\<close> of its own builds a record whose top-level \<^verbatim>\<open>user_id\<close> is \<^verbatim>\<open>"u2"\<close>.
\<close>

theorem reserved_keys_promoted:
  "dict_get (dict_merge (lg_context lg) kwargs) k =
     (case dict_get (rev kwargs) k of Some v \<Rightarrow> Some v | None \<Rightarrow> dict_get (lg_context lg) k)
   \<and> dict_get (e_promoted (build_entry lg stack now host lvl message exception kwargs)) k =
       (if k \<in> set special_keys then dict_get (dict_merge (lg_context lg) kwargs) k else None)
   \<and> dict_get (e_context (build_entry lg stack now host lvl message exception kwargs)) k =
       (if k \<in> set special_keys then None else dict_get (dict_merge (lg_context lg) kwargs) k)
   \<and> (has_key (e_context (build_entry lg stack now host lvl message exception kwargs)) k
        \<longleftrightarrow> k \<notin> set special_keys \<and> has_key (dict_merge (lg_context lg) kwargs) k)
   \<and> (Logger_with_context fuel_a [(''user_id'', VStr ''u1'')] (parent, heap_r) = Some (child_a, heap_a)
        \<longrightarrow> Logger_with_context fuel_b [(''user_id'', VStr ''u2'')] (child_a, heap_a) = Some (child_b, heap_b)
        \<longrightarrow> \<not> has_key extra ''user_id''
        \<longrightarrow> dict_get (e_promoted (build_entry child_b stack_b now_b host_b lvl_b message_b exception_b extra))
               ''user_id'' = Some (VStr ''u2'')
            \<and> \<not> has_key (e_context (build_entry child_b stack_b now_b host_b lvl_b message_b exception_b extra))
                 ''user_id'')"
proof -
  have s: "Logger_with_context fuel_b [(''user_id'', VStr ''u2'')] (child_a, heap_a) = Some (child_b, heap_b)
        \<Longrightarrow> \<not> has_key extra ''user_id''
        \<Longrightarrow> dict_get (e_promoted (build_entry child_b stack_b now_b host_b lvl_b message_b exception_b extra))
               ''user_id'' = Some (VStr ''u2'')
            \<and> \<not> has_key (e_context (build_entry child_b stack_b now_b host_b lvl_b message_b exception_b extra))
                 ''user_id''"
  proof -
    assume a: "Logger_with_context fuel_b [(''user_id'', VStr ''u2'')] (child_a, heap_a) = Some (child_b, heap_b)"
      and b: "\<not> has_key extra ''user_id''"
    have c: "dict_get (lg_context child_b) ''user_id'' = Some (VStr ''u2'')"
      by (rule with_context_one_string[OF a])
    have "has_key (rev extra) ''user_id'' = has_key extra ''user_id''"
      by (simp add: has_key_def)
    with b have d: "dict_get (rev extra) ''user_id'' = None"
      by (simp add: has_key_iff)
    have m: "dict_get (dict_merge (lg_context child_b) extra) ''user_id'' = Some (VStr ''u2'')"
      by (simp add: dict_get_merge c d)
    show ?thesis
      by (simp add: build_entry_promoted has_key_iff build_entry_context m special_keys_def)
  qed
  show ?thesis
    using s by (simp add: dict_get_merge build_entry_promoted build_entry_context has_key_iff)
qed

theorem reserved_keys_promoted_witness:
  "dict_get (e_promoted (build_entry (demo_child ''u2'' (demo_child ''u1'' (demo_logger INFO [collector])))
       [info_frame, demo_frame] ''now'' ''host1'' INFO ''hello'' None [(''request'', VInt 7)]))
     ''user_id'' = Some (VStr ''u2'')
   \<and> dict_get (e_context (build_entry (demo_child ''u2'' (demo_child ''u1'' (demo_logger INFO [collector])))
       [info_frame, demo_frame] ''now'' ''host1'' INFO ''hello'' None [(''request'', VInt 7)]))
     ''user_id'' = None
   \<and> dict_get (e_context (build_entry (demo_child ''u2'' (demo_child ''u1'' (demo_logger INFO [collector])))
       [info_frame, demo_frame] ''now'' ''host1'' INFO ''hello'' None [(''request'', VInt 7)]))
     ''request'' = Some (VInt 7)"
proof -
  let ?lg0 = "demo_logger INFO [collector]"
  let ?lg1 = "demo_child ''u1'' ?lg0"
  let ?lg2 = "demo_child ''u2'' ?lg1"
  have a: "Logger_with_context 0 [(''user_id'', VStr ''u1'')] (?lg0, []) = Some (?lg1, [])"
    by (simp add: demo_child_def Logger_with_context_def demo_logger_def)
  have b: "Logger_with_context 0 [(''user_id'', VStr ''u2'')] (?lg1, []) = Some (?lg2, [])"
    by (simp add: demo_child_def Logger_with_context_def demo_logger_def)
  have c: "\<not> has_key [(''request'', VInt 7)] ''user_id''"
    by (simp add: has_key_def)
  note t = reserved_keys_promoted[where lg = ?lg2 and k = "''request''"
      and kwargs = "[(''request'', VInt 7)]" and stack = "[info_frame, demo_frame]"
      and now = "''now''" and host = "''host1''" and lvl = INFO and message = "''hello''"
      and exception = None
      and fuel_a = 0 and parent = ?lg0 and heap_r = "[]" and child_a = ?lg1 and heap_a = "[]"
      and fuel_b = 0 and child_b = ?lg2 and heap_b = "[]" and extra = "[(''request'', VInt 7)]"
      and stack_b = "[info_frame, demo_frame]" and now_b = "''now''" and host_b = "''host1''"
      and lvl_b = INFO and message_b = "''hello''" and exception_b = None]
  from t a b c show ?thesis
    by (simp add: special_keys_def has_key_iff dict_get_def)
qed

section \<open>C5: failures inside handlers\<close>



section \<open>C6: the Drop policy\<close>

text \<open>
  Claim C6. Under the Drop policy an \<^verbatim>\<open>emit\<close> never blocks the caller and never raises, nor
  does a burst of \<open>N\<close> of them. On a handler that is running (not closed) it is a
  non-blocking attempt to enqueue: the record is queued when there is room, and otherwise
  discarded with exactly one added to the dropped counter. After \<open>N\<close> such calls with the
  background thread stalled, the world is untouched, the queue has grown by the first records
  that fitted, and the dropped counter has grown by \<open>N\<close> minus the number of records
  queued.
\<close>

theorem drop_policy_counts:
  assumes "ah_on_full a = DROP"
  shows "\<not> blocks (AsyncHandler_emit env e (a, w)) \<and> \<not> raises (AsyncHandler_emit env e (a, w))
       \<and> \<not> blocks (emit_each env es (a, w)) \<and> \<not> raises (emit_each env es (a, w))
       \<and> (\<not> ah_stop a \<longrightarrow>
            AsyncHandler_emit env e (a, w)
              = Ok (if queue_full a then count_dropped a else enqueue (Some e) a, w)
          \<and> snd (state_of (emit_each env es (a, w))) = w
          \<and> ah_queue (fst (state_of (emit_each env es (a, w))))
              = ah_queue a @ map Some (take (room a (length es)) es)
          \<and> ah_dropped_count (fst (state_of (emit_each env es (a, w)))) - ah_dropped_count a
              = int (length es)
                - (int (length (ah_queue (fst (state_of (emit_each env es (a, w))))))
                    - int (length (ah_queue a))))"
proof (cases "ah_stop a")
  case True
  then have "emit_each env es (a, w) = Ok (a, w)"
    by (simp add: emit_each_stopped)
  with True assms show ?thesis
    by (simp add: AsyncHandler_emit_not_raises AsyncHandler_emit_blocks)
next
  case False
  obtain a' where a': "emit_each env es (a, w) = Ok (a', w)"
    "ah_queue a' = ah_queue a @ map Some (take (room a (length es)) es)"
    "ah_dropped_count a' = ah_dropped_count a + int (length es)
                - int (length (take (room a (length es)) es))"
    using drop_emit_each[OF assms False, of env es w] by blast
  show ?thesis
    using drop_emit_one[OF assms False, of env e w] a' by simp
qed

theorem drop_policy_counts_witness:
  "ah_dropped_count (fst (state_of (emit_each demo_env
       [demo_record ''a'', demo_record ''b'', demo_record ''c'', demo_record ''d'', demo_record ''e'']
       (AsyncHandler_init (File \<lparr>fh_file_path = ''app.log'', fh_file = None\<rparr>) 2 DROP 100,
        demo_world)))) = 3
   \<and> ah_queue (fst (state_of (emit_each demo_env
       [demo_record ''a'', demo_record ''b'', demo_record ''c'', demo_record ''d'', demo_record ''e'']
       (AsyncHandler_init (File \<lparr>fh_file_path = ''app.log'', fh_file = None\<rparr>) 2 DROP 100,
        demo_world)))) = [Some (demo_record ''a''), Some (demo_record ''b'')]"
proof -
  let ?a = "AsyncHandler_init (File \<lparr>fh_file_path = ''app.log'', fh_file = None\<rparr>) 2 DROP 100
              :: pyval AsyncHandler"
  have h: "ah_on_full ?a = DROP"
    by (simp add: AsyncHandler_init_def)
  note t = drop_policy_counts[OF h, of demo_env "demo_record ''a''" demo_world
      "[demo_record ''a'', demo_record ''b'', demo_record ''c'', demo_record ''d'', demo_record ''e'']"]
  from t show ?thesis
    by (simp add: room_def AsyncHandler_init_def)
qed

section \<open>C7: close and the queued records\<close>

text \<open>
  Claim C7 says that after \<^verbatim>\<open>close\<close> every record enqueued under the Block policy reaches
  the underlying handler. Evaluated on the code: a handler with the Block policy over a file
  handler, its thread waiting in \<^verbatim>\<open>get\<close>, two records enqueued, then \<^verbatim>\<open>close\<close>. \<^verbatim>\<open>close\<close> sets
  \<^verbatim>\<open>_stop\<close> before it enqueues the sentinel, and the thread's loop tests \<^verbatim>\<open>_stop\<close> before it
  takes the next item. Whatever the thread does while \<^verbatim>\<open>close\<close> waits for it, the file ends
  with at most the first record (written only if the batch timeout had elapsed); the second
  record is never written, and once the thread has taken two steps it has exited with that
  record and the sentinel still in the queue.
\<close>

theorem close_loses_enqueued_records:
  "ah_on_full (fst pending) = BLOCK
   \<and> ah_queue (fst pending) = [Some (demo_record ''first''), Some (demo_record ''second'')]
   \<and> w_files (snd pending) ''app.log'' = Some []
   \<and> w_files (snd (state_of (AsyncHandler_close demo_env schedule pending))) ''app.log''
       = Some (if schedule \<noteq> [] \<and> hd schedule then ''first'' @ [CHR 0x0A] else [])
   \<and> ah_thread (fst (state_of (AsyncHandler_close demo_env (b # b' # rest) pending))) = Exited
   \<and> ah_queue (fst (state_of (AsyncHandler_close demo_env (b # b' # rest) pending)))
       = [Some (demo_record ''second''), None]"
  using close_after_pending[of schedule] close_after_pending[of "b # b' # rest"]
  by simp

section \<open>C8: rotation with no backups\<close>

text \<open>
  Claim C8 says that with \<^verbatim>\<open>backup_count = 0\<close> a rotation leaves no backup file. Evaluated
  on the code: a handler with \<^verbatim>\<open>max_bytes = 10\<close> and \<^verbatim>\<open>backup_count = 0\<close> on a primary file
  of eight bytes, and a record of six bytes. The write rotates, as the claim says, but the
  step that retires the primary file does not look at \<^verbatim>\<open>backup_count\<close>: the old content is
  kept as \<^verbatim>\<open>app.log.1\<close>.
\<close>

theorem zero_backups_keeps_a_backup:
  "rh_backup_count (fst small_rotating) = 0
   \<and> RotatingFileHandler_should_rotate (fst small_rotating) 6
   \<and> w_files (snd small_rotating) ''app.log.1'' = None
   \<and> w_files (snd (state_of (RotatingFileHandler_emit demo_env (demo_record ''hello'')
                               small_rotating))) ''app.log'' = Some (''hello'' @ [CHR 0x0A])
   \<and> w_files (snd (state_of (RotatingFileHandler_emit demo_env (demo_record ''hello'')
                               small_rotating))) ''app.log.1'' = Some ''12345678''
   \<and> rh_current_size (fst (state_of (RotatingFileHandler_emit demo_env (demo_record ''hello'')
                               small_rotating))) = 6"
  by (simp add: small_rotating_eq RotatingFileHandler_emit_def RotatingFileHandler_should_rotate_def
      RotatingFileHandler_do_rotate_def Let_def demo_env_def demo_record_def is_open_def
      mark_closed_def file_close_def backup_range_def retire_def fs_exists_def fs_unlink_def
      fs_rename_def fs_open_append_def file_write_def file_flush_def sys_call_def backup_path_def
      str_nat_1 demo_world_def)

section \<open>C9: the timer\<close>




section \<open>C10: emit after close\<close>

text \<open>
  Claim C10. Once \<^verbatim>\<open>close\<close> has been called on the async handler, whatever calls and
  steps of the background thread follow, an \<^verbatim>\<open>emit\<close> returns having changed nothing: the
  record is not enqueued, the underlying handler and the world are untouched, and the
  dropped counter stays as it was.
\<close>

theorem emit_after_close_is_noop:
  "let t = run_calls env calls (state_of (AsyncHandler_close env schedule s));
       r = AsyncHandler_emit env e t
   in r = Ok t
    \<and> ah_queue (fst (state_of r)) = ah_queue (fst t)
    \<and> ah_underlying (fst (state_of r)) = ah_underlying (fst t)
    \<and> ah_dropped_count (fst (state_of r)) = ah_dropped_count (fst t)
    \<and> snd (state_of r) = snd t"
proof -
  have "AsyncHandler_emit env e (run_calls env calls (state_of (AsyncHandler_close env schedule s)))
     = Ok (run_calls env calls (state_of (AsyncHandler_close env schedule s)))"
    by (rule stop_emit, rule stop_run_calls, rule stop_close)
  then show ?thesis by (simp add: Let_def)
qed

end
